theory Spec2Isabelle
  imports Main
begin

section \<open>JavaScript strings and the built-ins the plugin calls\<close>

text \<open>
  A JavaScript string is a finite sequence of UTF-16 code units. A code unit is modelled
  as a natural number (the real ones are below 65536; no arithmetic on them can overflow
  here), a string as a list of code units. \<open>js\<close> turns an Isabelle string literal
  into the JavaScript string with the same ASCII characters.
\<close>

type_synonym codeunit = nat

type_synonym jsstring = "codeunit list"

definition js :: "string \<Rightarrow> jsstring" where
  "js s = map of_char s"

text \<open>
  The regular-expression class \<open>\s\<close> and \<open>String.prototype.trim\<close> use the same set:
  ECMAScript's WhiteSpace and LineTerminator code points.
\<close>

definition isWhiteSpace :: "codeunit \<Rightarrow> bool" where
  "isWhiteSpace c \<longleftrightarrow>
     c = 0x09 \<or> c = 0x0A \<or> c = 0x0B \<or> c = 0x0C \<or> c = 0x0D \<or> c = 0x20 \<or> c = 0xA0 \<or>
     c = 0x1680 \<or> (0x2000 \<le> c \<and> c \<le> 0x200A) \<or> c = 0x2028 \<or> c = 0x2029 \<or>
     c = 0x202F \<or> c = 0x205F \<or> c = 0x3000 \<or> c = 0xFEFF"

definition trim :: "jsstring \<Rightarrow> jsstring" where
  "trim s = rev (dropWhile isWhiteSpace (rev (dropWhile isWhiteSpace s)))"

text \<open>
  \<open>s.split(/\s+/)\<close>: the string is cut at every maximal run of white space. A run at
  the start or at the end leaves an empty first or last piece, and the empty string
  splits into one empty piece, as in JavaScript.
\<close>

function splitWhiteSpace :: "jsstring \<Rightarrow> jsstring list" where
  "splitWhiteSpace [] = [[]]"
| "splitWhiteSpace (c # cs) =
     (if isWhiteSpace c then [] # splitWhiteSpace (dropWhile isWhiteSpace cs)
      else (case splitWhiteSpace cs of
              [] \<Rightarrow> [[c]]
            | w # ws \<Rightarrow> (c # w) # ws))"
  by pat_completeness auto

termination
  by (relation "measure length") (auto simp: less_Suc_eq_le length_dropWhile_le)

text \<open>
  \<open>String.prototype.toLowerCase\<close>. The plugin uses the lower-cased phrase for one thing
  only, as a key into \<open>punctuationMap\<close>, whose keys are ASCII. The Unicode code points
  whose lower-casing is an ASCII letter are \<open>A\<close> to \<open>Z\<close> and the Kelvin sign U+212A;
  every other code unit lower-cases to a non-ASCII string or to itself. The model maps
  those as Unicode does and leaves every other unit as it is, so it agrees with
  JavaScript on whether the result is a given ASCII key.
\<close>

definition lowerCaseUnit :: "codeunit \<Rightarrow> codeunit" where
  "lowerCaseUnit c =
     (if 0x41 \<le> c \<and> c \<le> 0x5A then c + 0x20
      else if c = 0x212A then 0x6B
      else c)"

definition toLowerCase :: "jsstring \<Rightarrow> jsstring" where
  "toLowerCase s = map lowerCaseUnit s"

text \<open>
  What the JavaScript engine decides and the plugin's source does not: the upper-casing
  of a one-unit string whose unit is not ASCII (Unicode's tables; it can be longer than
  one unit), and the text an engine prints for the built-in function \<open>Object\<close>
  (implementation-defined). Every function that depends on them takes the host as its
  first argument.
\<close>

record host =
  upperNonAscii :: "codeunit \<Rightarrow> jsstring"
  objectFunctionText :: jsstring

text \<open>\<open>String.fromCharCode(c).toUpperCase()\<close>.\<close>

definition upperCaseUnit :: "host \<Rightarrow> codeunit \<Rightarrow> jsstring" where
  "upperCaseUnit h c =
     (if 0x61 \<le> c \<and> c \<le> 0x7A then [c - 0x20]
      else if c < 0x80 then [c]
      else upperNonAscii h c)"

text \<open>
  A host for evaluating examples: V8's text for \<open>Object\<close>; non-ASCII units are left as
  they are (the examples below are ASCII).
\<close>

definition exampleHost :: host where
  "exampleHost =
     \<lparr> upperNonAscii = (\<lambda>c. [c]),
       objectFunctionText = js ''function Object() { [native code] }'' \<rparr>"

section \<open>The punctuation table and the phrase resolver\<close>

text \<open>The own properties of the object literal \<open>punctuationMap\<close>.\<close>

definition punctuationMap :: "(jsstring \<times> jsstring) list" where
  "punctuationMap =
     [(js ''full stop'', js ''.''),
      (js ''period'', js ''.''),
      (js ''dot'', js ''.''),
      (js ''comma'', js '',''),
      (js ''question mark'', js ''?''),
      (js ''exclamation mark'', js ''!''),
      (js ''exclamation point'', js ''!''),
      (js ''semicolon'', js '';''),
      (js ''semi colon'', js '';''),
      (js ''colon'', js '':''),
      (js ''dash'', js ''-''),
      (js ''hyphen'', js ''-''),
      (js ''apostrophe'', [0x27]),
      (js ''quotation mark'', [0x22]),
      (js ''quote'', [0x22]),
      (js ''open bracket'', js ''(''),
      (js ''close bracket'', js '')''),
      (js ''open parenthesis'', js ''(''),
      (js ''close parenthesis'', js '')''),
      (js ''new line'', [0x0A]),
      (js ''new paragraph'', [0x0A, 0x0A])]"

text \<open>
  The values a property read \<open>punctuationMap[key]\<close> can give. \<open>punctuationMap\<close> is
  an ordinary object, so a key that is not an own property is looked up on
  \<open>Object.prototype\<close>: \<open>constructor\<close> is the function \<open>Object\<close> and \<open>__proto__\<close>
  is \<open>Object.prototype\<close> itself. These are the only two property names of
  \<open>Object.prototype\<close> that a lower-cased key can equal (the others have a capital
  letter). A missing property (\<open>undefined\<close>) is \<open>None\<close>.
\<close>

datatype jsvalue = JString jsstring | JObjectFunction | JObjectPrototype

definition getProperty :: "jsstring \<Rightarrow> jsvalue option" where
  "getProperty key =
     (case map_of punctuationMap key of
        Some v \<Rightarrow> Some (JString v)
      | None \<Rightarrow>
          if key = js ''constructor'' then Some JObjectFunction
          else if key = js ''__proto__'' then Some JObjectPrototype
          else None)"

definition truthy :: "jsvalue \<Rightarrow> bool" where
  "truthy v = (case v of JString s \<Rightarrow> s \<noteq> [] | _ \<Rightarrow> True)"

text \<open>String conversion, as \<open>result += symbol\<close> performs it.\<close>

definition toStr :: "host \<Rightarrow> jsvalue \<Rightarrow> jsstring" where
  "toStr h v =
     (case v of
        JString s \<Rightarrow> s
      | JObjectFunction \<Rightarrow> objectFunctionText h
      | JObjectPrototype \<Rightarrow> js ''[object Object]'')"

definition sentenceEndingPunctuation :: "jsstring list" where
  "sentenceEndingPunctuation = [js ''.'', js ''?'', js ''!'', [0x0A, 0x0A]]"

definition isSentenceEnding :: "jsvalue \<Rightarrow> bool" where
  "isSentenceEnding symbol =
     (case symbol of JString s \<Rightarrow> s \<in> set sentenceEndingPunctuation | _ \<Rightarrow> False)"

text \<open>\<open>punctuationMap[normalized] || null\<close>; \<open>None\<close> is \<open>null\<close>.\<close>

definition getPunctuationSymbol :: "jsstring \<Rightarrow> jsvalue option" where
  "getPunctuationSymbol phrase =
     (let normalized = trim (toLowerCase phrase) in
      case getProperty normalized of
        Some v \<Rightarrow> if truthy v then Some v else None
      | None \<Rightarrow> None)"

text \<open>\<open>words.join(' ')\<close>.\<close>

fun joinSpace :: "jsstring list \<Rightarrow> jsstring" where
  "joinSpace [] = []"
| "joinSpace [w] = w"
| "joinSpace (w # v # ws) = w @ [0x20] @ joinSpace (v # ws)"

text \<open>\<open>words.slice(a, b)\<close> for \<open>0 \<le> a \<le> b\<close>.\<close>

definition slice :: "'a list \<Rightarrow> nat \<Rightarrow> nat \<Rightarrow> 'a list" where
  "slice xs a b = take (b - a) (drop a xs)"

text \<open>
  The \<open>for\<close> loop of \<open>matchPunctuation\<close>, with \<open>wordCount\<close> counting down to 1.
\<close>

fun matchFrom :: "jsstring list \<Rightarrow> nat \<Rightarrow> nat \<Rightarrow> (jsvalue \<times> nat) option" where
  "matchFrom words startIndex 0 = None"
| "matchFrom words startIndex (Suc k) =
     (let wordCount = Suc k in
      if startIndex + wordCount \<le> length words then
        (case getPunctuationSymbol (joinSpace (slice words startIndex (startIndex + wordCount))) of
           Some symbol \<Rightarrow> Some (symbol, wordCount)
         | None \<Rightarrow> matchFrom words startIndex k)
      else matchFrom words startIndex k)"

definition matchPunctuation :: "jsstring list \<Rightarrow> nat \<Rightarrow> (jsvalue \<times> nat) option" where
  "matchPunctuation words startIndex = matchFrom words startIndex 3"

section \<open>The text normalizer\<close>

definition capitalizeWord :: "host \<Rightarrow> jsstring \<Rightarrow> jsstring" where
  "capitalizeWord h word =
     (case word of
        [] \<Rightarrow> word
      | c # rest \<Rightarrow> upperCaseUnit h c @ rest)"

text \<open>\<open>s.endsWith(t)\<close>.\<close>

definition endsWith :: "jsstring \<Rightarrow> jsstring \<Rightarrow> bool" where
  "endsWith s t \<longleftrightarrow> length t \<le> length s \<and> drop (length s - length t) s = t"

definition getSpacingBefore :: "jsstring \<Rightarrow> jsstring" where
  "getSpacingBefore currentResult =
     (if length currentResult = 0 then []
      else if endsWith currentResult [0x0A] \<or> endsWith currentResult [0x20] then []
      else [0x20])"

text \<open>
  The loop state of \<open>processTextWithPunctuation\<close> is \<open>(i, result, shouldCapitalize)\<close>.
  \<open>loopBody\<close> is one pass through the body of the \<open>while\<close> loop; the loop runs it
  only while \<open>i < words.length\<close>, so \<open>words ! i\<close> is read in range.
\<close>

type_synonym loopState = "nat \<times> jsstring \<times> bool"

definition loopBody :: "host \<Rightarrow> jsstring list \<Rightarrow> loopState \<Rightarrow> loopState" where
  "loopBody h words st =
     (case st of (i, result, shouldCapitalize) \<Rightarrow>
        (case matchPunctuation words i of
           Some (symbol, wordsConsumed) \<Rightarrow>
             (i + wordsConsumed,
              result @ toStr h symbol @
                (if symbol \<noteq> JString [0x0A] \<and> symbol \<noteq> JString [0x0A, 0x0A] then [0x20] else []),
              (if isSentenceEnding symbol then True else shouldCapitalize))
         | None \<Rightarrow>
             (i + 1,
              result @ getSpacingBefore result @
                (if shouldCapitalize then capitalizeWord h (words ! i) else words ! i),
              False)))"

text \<open>
  The \<open>while (i < words.length)\<close> loop; its value is the final \<open>result\<close>. That
  the loop ends on every input is proved below, from what \<open>matchPunctuation\<close> consumes.
\<close>

function processLoop :: "host \<Rightarrow> jsstring list \<Rightarrow> loopState \<Rightarrow> jsstring" where
  "processLoop h words st =
     (if fst st < length words then processLoop h words (loopBody h words st)
      else fst (snd st))"
  by pat_completeness auto

definition processTextWithPunctuation :: "host \<Rightarrow> jsstring \<Rightarrow> jsstring" where
  "processTextWithPunctuation h text =
     (if text = [] \<or> trim text = [] then []
      else processLoop h (splitWhiteSpace (trim text)) (0, [], False))"

section \<open>Committing text to the document\<close>

text \<open>The regular expression \<open>/^[a-z]/\<close>.\<close>

definition startsWithLowerCase :: "jsstring \<Rightarrow> bool" where
  "startsWithLowerCase s = (case s of [] \<Rightarrow> False | c # _ \<Rightarrow> 0x61 \<le> c \<and> c \<le> 0x7A)"

text \<open>
  The regular expression \<open>/[.!?]\s*$/\<close>: one of the three marks, then white space
  only, up to the end of the string.
\<close>

definition endsWithSentenceMark :: "jsstring \<Rightarrow> bool" where
  "endsWithSentenceMark s =
     (case dropWhile isWhiteSpace (rev s) of
        [] \<Rightarrow> False
      | c # _ \<Rightarrow> c = 0x2E \<or> c = 0x21 \<or> c = 0x3F)"

text \<open>The regular expression \<open>/^[.,!?;:)\]]/\<close>.\<close>

definition startsWithPunctuation :: "jsstring \<Rightarrow> bool" where
  "startsWithPunctuation s =
     (case s of [] \<Rightarrow> False | c # _ \<Rightarrow> c \<in> set (js ''.,!?;:)]''))"

definition shouldCapitalizeText :: "jsstring \<Rightarrow> jsstring \<Rightarrow> bool" where
  "shouldCapitalizeText editorContent textToInsert =
     (if length editorContent = 0 \<or> \<not> startsWithLowerCase textToInsert then False
      else endsWithSentenceMark (trim editorContent))"

definition needsSpaceBefore :: "jsstring \<Rightarrow> jsstring \<Rightarrow> bool" where
  "needsSpaceBefore editorContent textToInsert =
     (if length editorContent = 0 then False
      else if endsWith editorContent [0x20] \<or> endsWith editorContent [0x0A] then False
      else if startsWithPunctuation textToInsert then False
      else True)"

text \<open>
  \<open>currentContent\<close> is what \<open>editor.getContent({format: 'text'})\<close> returns when
  \<open>prepareTextForInsertion\<close> runs.
\<close>

definition prepareTextForInsertion :: "host \<Rightarrow> jsstring \<Rightarrow> jsstring \<Rightarrow> jsstring" where
  "prepareTextForInsertion h currentContent text =
     (let finalText = text;
          finalText = (if shouldCapitalizeText currentContent finalText
                       then capitalizeWord h finalText else finalText);
          finalText = (if needsSpaceBefore currentContent finalText
                       then [0x20] @ finalText else finalText)
      in finalText)"

section \<open>The session of one editor\<close>

text \<open>
  The state \<open>getEditorState\<close> keeps for an editor. \<open>recognition\<close> says whether the
  field holds a recognition object (it is \<open>null\<close> at first); \<open>previewContainer\<close> is
  \<open>None\<close> for \<open>null\<close> and otherwise holds the text shown in the preview's text element.
\<close>

record editorState =
  recognition :: bool
  listening :: bool
  finalTranscript :: jsstring
  previewContainer :: "jsstring option"

definition initialState :: editorState where
  "initialState =
     \<lparr> recognition = False, listening = False, finalTranscript = [], previewContainer = None \<rparr>"

text \<open>
  A result slot of a recognition event: \<open>results[i][0].transcript\<close> and
  \<open>results[i].isFinal\<close>.
\<close>

record resultSlot =
  transcript :: jsstring
  isFinal :: bool

record recognitionEvent =
  resultIndex :: nat
  results :: "resultSlot list"

definition showPreview :: "editorState \<Rightarrow> editorState" where
  "showPreview state =
     (case previewContainer state of
        Some _ \<Rightarrow> state
      | None \<Rightarrow> state\<lparr>previewContainer := Some []\<rparr>)"

definition hidePreview :: "editorState \<Rightarrow> editorState" where
  "hidePreview state =
     (case previewContainer state of
        Some _ \<Rightarrow> state\<lparr>previewContainer := None\<rparr>
      | None \<Rightarrow> state)"

definition updatePreview :: "host \<Rightarrow> editorState \<Rightarrow> jsstring \<Rightarrow> editorState" where
  "updatePreview h state text =
     (case previewContainer state of
        Some _ \<Rightarrow> state\<lparr>previewContainer := Some (processTextWithPunctuation h text)\<rparr>
      | None \<Rightarrow> state)"

text \<open>
  \<open>handleFinalTranscript\<close> returns the new state and the text passed to
  \<open>editor.insertContent\<close>, if it was called.
\<close>

definition handleFinalTranscript ::
    "host \<Rightarrow> jsstring \<Rightarrow> editorState \<Rightarrow> editorState \<times> jsstring option" where
  "handleFinalTranscript h currentContent state =
     (if finalTranscript state = [] then (state, None)
      else
        (let processedText = processTextWithPunctuation h (finalTranscript state);
             textToInsert = prepareTextForInsertion h currentContent processedText
         in (updatePreview h (state\<lparr>finalTranscript := []\<rparr>) [], Some textToInsert)))"

text \<open>
  The \<open>for\<close> loop of \<open>handleRecognitionResult\<close>, from index \<open>i\<close>; the pair is
  \<open>(state.finalTranscript, interimTranscript)\<close>.
\<close>

function collectResults ::
    "resultSlot list \<Rightarrow> nat \<Rightarrow> jsstring \<times> jsstring \<Rightarrow> jsstring \<times> jsstring" where
  "collectResults slots i acc =
     (if i < length slots then
        collectResults slots (i + 1)
          (if isFinal (slots ! i) then (fst acc @ transcript (slots ! i) @ [0x20], snd acc)
           else (fst acc, snd acc @ transcript (slots ! i)))
      else acc)"
  by pat_completeness auto

termination
  by (relation "measure (\<lambda>(slots, i, acc). length slots - i)") auto

definition handleRecognitionResult ::
    "host \<Rightarrow> jsstring \<Rightarrow> editorState \<Rightarrow> recognitionEvent \<Rightarrow> editorState \<times> jsstring option" where
  "handleRecognitionResult h currentContent state event =
     (let collected = collectResults (results event) (resultIndex event) (finalTranscript state, []);
          state1 = state\<lparr>finalTranscript := fst collected\<rparr>;
          interimTranscript = snd collected;
          state2 = (if interimTranscript \<noteq> [] then updatePreview h state1 interimTranscript
                    else state1)
      in handleFinalTranscript h currentContent state2)"

text \<open>
  What the browser decides when the toggle starts a session: whether the Web Speech API
  exists, whether constructing the recognition object throws, whether
  \<open>recognition.start()\<close> throws.
\<close>

record speechApi =
  apiSupported :: bool
  constructorThrows :: bool
  startThrows :: bool

datatype jsError = TypeError

text \<open>
  \<open>initializeRecognition\<close>: \<open>Inl\<close> when the constructor throws (into the
  \<open>try\<close> block of \<open>handleAction\<close>).
\<close>

definition initializeRecognition :: "speechApi \<Rightarrow> editorState \<Rightarrow> unit + editorState" where
  "initializeRecognition api state =
     (if \<not> apiSupported api then Inr state
      else if constructorThrows api then Inl ()
      else Inr (state\<lparr>recognition := True\<rparr>))"

text \<open>
  \<open>handleAction\<close>. In the \<open>try\<close> block every exception ends in the \<open>catch\<close>
  block, which hides the preview; \<open>state.recognition.start()\<close> throws a TypeError when
  \<open>state.recognition\<close> is still \<open>null\<close>. In the stop branch nothing catches the
  TypeError of \<open>state.recognition.stop()\<close> on \<open>null\<close>.
\<close>

definition handleAction :: "speechApi \<Rightarrow> editorState \<Rightarrow> jsError + editorState" where
  "handleAction api state =
     (if \<not> listening state then
        (case (if \<not> recognition state then initializeRecognition api state else Inr state) of
           Inl _ \<Rightarrow> Inr (hidePreview state)
         | Inr state1 \<Rightarrow>
             (let state2 = showPreview state1 in
              if \<not> recognition state2 \<or> startThrows api then Inr (hidePreview state2)
              else Inr (state2\<lparr>listening := True\<rparr>)))
      else if \<not> recognition state then Inl TypeError
      else Inr (hidePreview (state\<lparr>listening := False\<rparr>)))"

text \<open>The click handler of the preview's close button.\<close>

definition closeButtonClick :: "editorState \<Rightarrow> editorState" where
  "closeButtonClick state =
     hidePreview (if listening state \<and> recognition state then state\<lparr>listening := False\<rparr>
                  else state)"

text \<open>The \<open>onerror\<close> and \<open>onend\<close> handlers of the recognition object.\<close>

definition onerror :: "editorState \<Rightarrow> editorState" where
  "onerror state = hidePreview (state\<lparr>listening := False\<rparr>)"

definition onend :: "editorState \<Rightarrow> editorState" where
  "onend state = hidePreview (state\<lparr>listening := False\<rparr>)"

text \<open>
  The states a session can be in: it starts in \<open>initialState\<close>, and each event runs
  its handler. The recognition handlers exist once the recognition object does; the
  close button exists while the preview does.
\<close>

inductive reachable :: "host \<Rightarrow> editorState \<Rightarrow> bool" for h :: host where
  reach_initial: "reachable h initialState"
| reach_action: "reachable h state \<Longrightarrow> handleAction api state = Inr state' \<Longrightarrow> reachable h state'"
| reach_close: "reachable h state \<Longrightarrow> previewContainer state \<noteq> None \<Longrightarrow>
     reachable h (closeButtonClick state)"
| reach_result: "reachable h state \<Longrightarrow> recognition state \<Longrightarrow>
     reachable h (fst (handleRecognitionResult h currentContent state event))"
| reach_error: "reachable h state \<Longrightarrow> recognition state \<Longrightarrow> reachable h (onerror state)"
| reach_end: "reachable h state \<Longrightarrow> recognition state \<Longrightarrow> reachable h (onend state)"

section \<open>Notions used in the properties\<close>

text \<open>The three windows of \<open>matchPunctuation\<close>, longest first.\<close>

definition window :: "jsstring list \<Rightarrow> nat \<Rightarrow> nat \<Rightarrow> jsvalue option" where
  "window words startIndex wordCount =
     (if startIndex + wordCount \<le> length words
      then getPunctuationSymbol (joinSpace (slice words startIndex (startIndex + wordCount)))
      else None)"

text \<open>
  The spec's words for the two accumulations of one event: the text of the final slots
  from \<open>resultIndex\<close> on, each followed by one space, and the text of the others.
\<close>

definition specFinalText :: "recognitionEvent \<Rightarrow> jsstring" where
  "specFinalText event =
     concat (map (\<lambda>s. transcript s @ [0x20])
       (filter isFinal (drop (resultIndex event) (results event))))"

definition specInterimText :: "recognitionEvent \<Rightarrow> jsstring" where
  "specInterimText event =
     concat (map transcript
       (filter (\<lambda>s. \<not> isFinal s) (drop (resultIndex event) (results event))))"

text \<open>Concrete states and inputs for the examples.\<close>

definition workingApi :: speechApi where
  "workingApi = \<lparr> apiSupported = True, constructorThrows = False, startThrows = False \<rparr>"

definition listeningState :: editorState where
  "listeningState =
     \<lparr> recognition = True, listening = True, finalTranscript = [], previewContainer = Some [] \<rparr>"

definition stoppedState :: editorState where
  "stoppedState =
     \<lparr> recognition = True, listening = False, finalTranscript = [], previewContainer = None \<rparr>"

definition exampleEvent :: recognitionEvent where
  "exampleEvent =
     \<lparr> resultIndex = 1,
       results = [\<lparr> transcript = js ''old'', isFinal = True \<rparr>,
                  \<lparr> transcript = js ''hello'', isFinal = True \<rparr>,
                  \<lparr> transcript = js ''wor'', isFinal = False \<rparr>] \<rparr>"

text \<open>The space the loop appends after a symbol.\<close>

definition spaceAfter :: "jsvalue \<Rightarrow> jsstring" where
  "spaceAfter symbol =
     (if symbol \<noteq> JString [0x0A] \<and> symbol \<noteq> JString [0x0A, 0x0A] then [0x20] else [])"

text \<open>
  \<open>symbolRun h words i j appended\<close>: from cursor \<open>i\<close> the loop resolves symbols
  only until the cursor is \<open>j\<close>, and \<open>appended\<close> is what these passes append.
\<close>

inductive symbolRun :: "host \<Rightarrow> jsstring list \<Rightarrow> nat \<Rightarrow> nat \<Rightarrow> jsstring \<Rightarrow> bool"
  for h :: host and words :: "jsstring list" where
  run_none: "symbolRun h words i i []"
| run_symbol: "i < length words \<Longrightarrow> matchPunctuation words i = Some (symbol, n) \<Longrightarrow>
     symbolRun h words (i + n) j appended \<Longrightarrow>
     symbolRun h words i j (toStr h symbol @ spaceAfter symbol @ appended)"

text \<open>\<open>hasPair a b s\<close>: somewhere in \<open>s\<close> the unit \<open>a\<close> is immediately followed by \<open>b\<close>.\<close>

fun hasPair :: "codeunit \<Rightarrow> codeunit \<Rightarrow> jsstring \<Rightarrow> bool" where
  "hasPair a b [] = False"
| "hasPair a b [x] = False"
| "hasPair a b (x # y # ys) = ((x = a \<and> y = b) \<or> hasPair a b (y # ys))"

text \<open>
  \<open>spaceBeforeSymbol s\<close>: somewhere in \<open>s\<close> a space is immediately followed by one
  of the symbols of the punctuation table.
\<close>

fun spaceBeforeSymbol :: "jsstring \<Rightarrow> bool" where
  "spaceBeforeSymbol [] = False"
| "spaceBeforeSymbol (c # cs) =
     ((c = 0x20 \<and> list_ex (\<lambda>entry. take (length (snd entry)) cs = snd entry) punctuationMap)
      \<or> spaceBeforeSymbol cs)"

text \<open>The symbols of the punctuation table, as values.\<close>

definition tableSymbol :: "jsvalue \<Rightarrow> bool" where
  "tableSymbol v = list_ex (\<lambda>entry. v = JString (snd entry)) punctuationMap"

text \<open>
  \<open>tableOnly words\<close>: whatever \<open>matchPunctuation\<close> resolves in \<open>words\<close> is a symbol of
  the table (no word is \<open>constructor\<close> or \<open>__proto__\<close>).
\<close>

definition tableOnly :: "jsstring list \<Rightarrow> bool" where
  "tableOnly words =
     (\<forall>i<length words.
        case matchPunctuation words i of
          None \<Rightarrow> True
        | Some (symbol, n) \<Rightarrow> tableSymbol symbol)"

text \<open>
  What every engine's upper-casing satisfies: the upper-case form of a non-ASCII unit is
  not empty and holds no space.
\<close>

definition upperKeepsWords :: "host \<Rightarrow> bool" where
  "upperKeepsWords h = (\<forall>c\<ge>0x80. upperNonAscii h c \<noteq> [] \<and> 0x20 \<notin> set (upperNonAscii h c))"

text \<open>The words the loop works on: none is empty, none holds a space.\<close>

definition properWords :: "jsstring list \<Rightarrow> bool" where
  "properWords words = (\<forall>w\<in>set words. w \<noteq> [] \<and> 0x20 \<notin> set w)"

text \<open>The buffer's invariant: no two spaces in a row, no space right after a newline.\<close>

definition wellSpaced :: "jsstring \<Rightarrow> bool" where
  "wellSpaced s \<longleftrightarrow> \<not> hasPair 0x20 0x20 s \<and> \<not> hasPair 0x0A 0x20 s"

section \<open>Termination of the normalizer's loop\<close>

lemma matchFrom_consumed:
  "matchFrom words startIndex k = Some (symbol, n) \<Longrightarrow>
     1 \<le> n \<and> n \<le> k \<and> startIndex + n \<le> length words"
proof (induction k)
  case 0
  then show ?case by simp
next
  case (Suc k)
  then show ?case
    by (auto simp: Let_def split: if_splits option.splits)
qed

lemma matchPunctuation_consumed:
  "matchPunctuation words startIndex = Some (symbol, n) \<Longrightarrow>
     1 \<le> n \<and> n \<le> 3 \<and> startIndex + n \<le> length words"
  unfolding matchPunctuation_def by (rule matchFrom_consumed)

lemma loopBody_advances:
  assumes "i < length words"
  shows "i < fst (loopBody h words (i, result, shouldCapitalize))"
    and "fst (loopBody h words (i, result, shouldCapitalize)) \<le> length words"
  using assms
  by (auto simp: loopBody_def split: option.splits dest: matchPunctuation_consumed)

termination processLoop
proof (relation "measure (\<lambda>(h, words, st). length words - fst st)")
  show "wf (measure (\<lambda>(h, words, st). length words - fst st))"
    by simp
next
  fix h :: host and words :: "jsstring list" and st :: loopState
  assume less: "fst st < length words"
  obtain i result shouldCapitalize where st: "st = (i, result, shouldCapitalize)"
    by (cases st)
  from less loopBody_advances [of i words h result shouldCapitalize]
  have "i < fst (loopBody h words st)" and "fst (loopBody h words st) \<le> length words"
    by (simp_all add: st)
  with less show "((h, words, loopBody h words st), (h, words, st))
      \<in> measure (\<lambda>(h, words, st). length words - fst st)"
    by (simp add: st)
qed

declare processLoop.simps [simp del]

declare collectResults.simps [simp del]

section \<open>Properties of the commit\<close>

lemma endsWith_single: "endsWith s [c] \<longleftrightarrow> s \<noteq> [] \<and> last s = c"
proof (cases s rule: rev_cases)
  case Nil
  then show ?thesis by (simp add: endsWith_def)
next
  case (snoc ys y)
  then show ?thesis by (auto simp: endsWith_def)
qed

lemma rev_trim: "rev (trim s) = dropWhile isWhiteSpace (rev (dropWhile isWhiteSpace s))"
  by (simp add: trim_def)

lemma endsWithSentenceMark_trim:
  "endsWithSentenceMark (trim d) \<longleftrightarrow>
     trim d \<noteq> [] \<and> (last (trim d) = 0x2E \<or> last (trim d) = 0x21 \<or> last (trim d) = 0x3F)"
proof -
  have idem: "dropWhile isWhiteSpace (rev (trim d)) = rev (trim d)"
    by (simp add: rev_trim dropWhile_idem)
  show ?thesis
  proof (cases "trim d" rule: rev_cases)
    case Nil
    then show ?thesis using idem by (simp add: endsWithSentenceMark_def)
  next
    case (snoc ys y)
    then show ?thesis using idem by (simp add: endsWithSentenceMark_def)
  qed
qed

lemma startsWithPunctuation_iff:
  "startsWithPunctuation t \<longleftrightarrow> t \<noteq> [] \<and> hd t \<in> set (js ''.,!?;:)]'')"
  by (cases t) (simp_all add: startsWithPunctuation_def)

lemma startsWithLowerCase_iff:
  "startsWithLowerCase t \<longleftrightarrow> t \<noteq> [] \<and> 0x61 \<le> hd t \<and> hd t \<le> 0x7A"
  by (cases t) (simp_all add: startsWithLowerCase_def)

lemma capitalizeWord_lower:
  "startsWithLowerCase t \<Longrightarrow> capitalizeWord h t = (hd t - 0x20) # tl t"
  by (cases t) (simp_all add: startsWithLowerCase_def capitalizeWord_def upperCaseUnit_def)

lemma startsWithPunctuation_capitalized:
  "startsWithLowerCase t \<Longrightarrow> \<not> startsWithPunctuation t \<and> \<not> startsWithPunctuation ((hd t - 0x20) # tl t)"
  by (cases t) (auto simp: startsWithLowerCase_def startsWithPunctuation_def js_def)

lemma needsSpaceBefore_iff:
  "needsSpaceBefore d t \<longleftrightarrow>
     d \<noteq> [] \<and> \<not> (last d = 0x20 \<or> last d = 0x0A) \<and> \<not> startsWithPunctuation t"
  by (auto simp: needsSpaceBefore_def endsWith_single)

lemma shouldCapitalizeText_iff:
  "shouldCapitalizeText d t \<longleftrightarrow>
     d \<noteq> [] \<and> startsWithLowerCase t \<and> endsWithSentenceMark (trim d)"
  by (auto simp: shouldCapitalizeText_def)

text \<open>
  What \<open>prepareTextForInsertion\<close> computes, for every document content \<open>d\<close> and
  every text \<open>t\<close>: \<open>t\<close> with its first unit upper-cased exactly when \<open>d\<close> is not
  empty, \<open>t\<close> starts with one of the ASCII letters \<open>a\<close> to \<open>z\<close> and the trimmed \<open>d\<close>
  ends with \<open>.\<close>, \<open>!\<close> or \<open>?\<close>, and with one space in front exactly when \<open>d\<close> is
  not empty, \<open>d\<close> does not end in a space or a newline and \<open>t\<close> does not start with
  one of \<open>. , ! ? ; : ) ]\<close>. For \<open>d = "Hello world."\<close> and \<open>t = "there is more"\<close>
  the insertion is \<open>" There is more"\<close>.
\<close>

theorem prepareTextForInsertion_spec:
  "prepareTextForInsertion h d t =
     (if d \<noteq> [] \<and> \<not> (last d = 0x20 \<or> last d = 0x0A) \<and>
         \<not> (t \<noteq> [] \<and> hd t \<in> set (js ''.,!?;:)]''))
      then [0x20] else []) @
     (if d \<noteq> [] \<and> (t \<noteq> [] \<and> 0x61 \<le> hd t \<and> hd t \<le> 0x7A) \<and>
         (trim d \<noteq> [] \<and> (last (trim d) = 0x2E \<or> last (trim d) = 0x21 \<or> last (trim d) = 0x3F))
      then (hd t - 0x20) # tl t else t)
   \<and> prepareTextForInsertion h (js ''Hello world.'') (js ''there is more'') = js '' There is more''"
proof
  show "prepareTextForInsertion h d t =
     (if d \<noteq> [] \<and> \<not> (last d = 0x20 \<or> last d = 0x0A) \<and>
         \<not> (t \<noteq> [] \<and> hd t \<in> set (js ''.,!?;:)]''))
      then [0x20] else []) @
     (if d \<noteq> [] \<and> (t \<noteq> [] \<and> 0x61 \<le> hd t \<and> hd t \<le> 0x7A) \<and>
         (trim d \<noteq> [] \<and> (last (trim d) = 0x2E \<or> last (trim d) = 0x21 \<or> last (trim d) = 0x3F))
      then (hd t - 0x20) # tl t else t)"
  proof -
    have cap: "shouldCapitalizeText d t \<longleftrightarrow>
        d \<noteq> [] \<and> (t \<noteq> [] \<and> 0x61 \<le> hd t \<and> hd t \<le> 0x7A) \<and>
        (trim d \<noteq> [] \<and> (last (trim d) = 0x2E \<or> last (trim d) = 0x21 \<or> last (trim d) = 0x3F))"
      by (simp add: shouldCapitalizeText_iff endsWithSentenceMark_trim startsWithLowerCase_iff)
    have sp: "needsSpaceBefore d t' \<longleftrightarrow>
        d \<noteq> [] \<and> \<not> (last d = 0x20 \<or> last d = 0x0A) \<and>
        \<not> (t \<noteq> [] \<and> hd t \<in> set (js ''.,!?;:)]''))"
      if "startsWithPunctuation t' = startsWithPunctuation t" for t'
      using that by (simp add: needsSpaceBefore_iff startsWithPunctuation_iff)
    show ?thesis
    proof (cases "shouldCapitalizeText d t")
      case True
      then have low: "startsWithLowerCase t"
        by (simp add: shouldCapitalizeText_iff)
      have same: "startsWithPunctuation ((hd t - 0x20) # tl t) = startsWithPunctuation t"
        using startsWithPunctuation_capitalized [OF low] by simp
      have "prepareTextForInsertion h d t =
          (if needsSpaceBefore d ((hd t - 0x20) # tl t) then [0x20] else []) @ (hd t - 0x20) # tl t"
        using True by (simp add: prepareTextForInsertion_def Let_def capitalizeWord_lower [OF low])
      also have "\<dots> = (if needsSpaceBefore d t then [0x20] else []) @ (hd t - 0x20) # tl t"
        by (simp only: sp [OF same] sp [OF refl])
      finally show ?thesis
        using True by (simp only: cap [symmetric] sp [OF refl, symmetric] if_True)
    next
      case False
      have "prepareTextForInsertion h d t = (if needsSpaceBefore d t then [0x20] else []) @ t"
        using False by (simp add: prepareTextForInsertion_def Let_def)
      then show ?thesis
        using False by (simp only: cap [symmetric] sp [OF refl, symmetric] if_False)
    qed
  qed
next
  show "prepareTextForInsertion h (js ''Hello world.'') (js ''there is more'') = js '' There is more''"
    by (simp add: prepareTextForInsertion_def shouldCapitalizeText_def needsSpaceBefore_def
        startsWithLowerCase_def endsWithSentenceMark_def startsWithPunctuation_def
        endsWith_def capitalizeWord_def upperCaseUnit_def trim_def isWhiteSpace_def js_def)
qed

theorem prepareTextForInsertion_spec_witness:
  "prepareTextForInsertion exampleHost (js ''Hello world,'') (js ''more text'') = js '' more text''"
  using prepareTextForInsertion_spec [of exampleHost "js ''Hello world,''" "js ''more text''"]
  by (simp add: js_def trim_def isWhiteSpace_def)

section \<open>Properties of the normalizer\<close>

lemma processLoop_step:
  "fst st < length words \<Longrightarrow> processLoop h words st = processLoop h words (loopBody h words st)"
  by (subst processLoop.simps) simp

lemma processLoop_done:
  "\<not> fst st < length words \<Longrightarrow> processLoop h words st = fst (snd st)"
  by (subst processLoop.simps) simp

lemma matchPunctuation_unfold:
  "matchPunctuation words i =
     (case window words i 3 of
        Some s \<Rightarrow> Some (s, 3)
      | None \<Rightarrow>
         (case window words i 2 of
            Some s \<Rightarrow> Some (s, 2)
          | None \<Rightarrow>
             (case window words i (Suc 0) of
                Some s \<Rightarrow> Some (s, Suc 0)
              | None \<Rightarrow> None)))"
  by (simp add: matchPunctuation_def numeral_3_eq_3 numeral_2_eq_2 window_def Let_def
      split: option.splits)

lemmas lookup_defs =
  window_def slice_def js_def trim_def isWhiteSpace_def getPunctuationSymbol_def
  toLowerCase_def lowerCaseUnit_def getProperty_def punctuationMap_def truthy_def

lemmas loop_defs =
  processLoop_step processLoop_done loopBody_def toStr_def getSpacingBefore_def endsWith_def
  isSentenceEnding_def sentenceEndingPunctuation_def capitalizeWord_def upperCaseUnit_def

lemma loopBody_symbol:
  "matchPunctuation words i = Some (symbol, n) \<Longrightarrow>
     loopBody h words (i, result, c) =
       (i + n,
        result @ toStr h symbol @
          (if symbol = JString [0x0A] \<or> symbol = JString [0x0A, 0x0A] then [] else [0x20]),
        c \<or> isSentenceEnding symbol)"
  by (simp add: loopBody_def)

lemma loopBody_word:
  "matchPunctuation words i = None \<Longrightarrow>
     loopBody h words (i, result, c) =
       (i + 1,
        result @ getSpacingBefore result @ (if c then capitalizeWord h (words ! i) else words ! i),
        False)"
  by (simp add: loopBody_def)

lemma dropWhile_all: "list_all P xs \<Longrightarrow> dropWhile P xs = []"
  by (induction xs) simp_all

lemma trim_all_whiteSpace: "list_all isWhiteSpace text \<Longrightarrow> trim text = []"
  by (simp add: trim_def dropWhile_all)

text \<open>
  C4: a resolved symbol is appended to the output with no space before it and one space
  after it, unless it is the newline or the blank line; empty and white-space-only input
  gives the empty string; \<open>normalize("hello comma world full stop")\<close> is
  \<open>"hello, world. "\<close>.
\<close>

theorem symbol_appended:
  "(i < length words \<and> matchPunctuation words i = Some (symbol, n) \<longrightarrow>
      processLoop h words (i, result, c) =
        processLoop h words
          (i + n,
           result @ toStr h symbol @
             (if symbol = JString [0x0A] \<or> symbol = JString [0x0A, 0x0A] then [] else [0x20]),
           c \<or> isSentenceEnding symbol))
   \<and> (list_all isWhiteSpace text \<longrightarrow> processTextWithPunctuation h text = [])
   \<and> processTextWithPunctuation h (js ''hello comma world full stop'') = js ''hello, world. ''"
proof (intro conjI impI)
  assume "i < length words \<and> matchPunctuation words i = Some (symbol, n)"
  then show "processLoop h words (i, result, c) =
        processLoop h words
          (i + n,
           result @ toStr h symbol @
             (if symbol = JString [0x0A] \<or> symbol = JString [0x0A, 0x0A] then [] else [0x20]),
           c \<or> isSentenceEnding symbol)"
    by (simp add: processLoop_step loopBody_symbol)
next
  assume "list_all isWhiteSpace text"
  then show "processTextWithPunctuation h text = []"
    by (simp add: processTextWithPunctuation_def trim_all_whiteSpace)
next
  show "processTextWithPunctuation h (js ''hello comma world full stop'') = js ''hello, world. ''"
    by (simp add: processTextWithPunctuation_def matchPunctuation_unfold lookup_defs loop_defs)
qed

theorem symbol_appended_witness:
  "processLoop exampleHost [js ''new'', js ''line'', js ''ok''] (0, js ''a'', False) =
     processLoop exampleHost [js ''new'', js ''line'', js ''ok''] (2, js ''a'' @ [0x0A], False)
   \<and> processTextWithPunctuation exampleHost (js ''   '') = []"
proof -
  have m: "matchPunctuation [js ''new'', js ''line'', js ''ok''] 0 = Some (JString [0x0A], 2)"
    by (simp add: matchPunctuation_unfold lookup_defs)
  have w: "list_all isWhiteSpace (js ''   '')"
    by (simp add: js_def isWhiteSpace_def)
  from m w
    symbol_appended [of 0 "[js ''new'', js ''line'', js ''ok'']" "JString [0x0A]" 2
      exampleHost "js ''a''" False "js ''   ''"]
  show ?thesis
    by (simp add: toStr_def isSentenceEnding_def sentenceEndingPunctuation_def js_def
        numeral_2_eq_2)
qed

text \<open>
  C3: on the one-word sequence \<open>constructor\<close> no window is a phrase of the punctuation
  table, yet \<open>matchPunctuation\<close> returns a match: the property read finds
  \<open>Object.prototype.constructor\<close>, and the normalizer prints the function \<open>Object\<close>
  in place of the word.
\<close>

theorem matchPunctuation_constructor:
  "matchPunctuation [js ''constructor''] 0 = Some (JObjectFunction, 1)
   \<and> map_of punctuationMap (trim (toLowerCase (js ''constructor''))) = None
   \<and> processTextWithPunctuation h (js ''constructor'') = objectFunctionText h @ [0x20]"
  by (simp add: processTextWithPunctuation_def matchPunctuation_unfold lookup_defs loop_defs)

lemma funpow_loop_exit:
  "fst st \<le> length words \<Longrightarrow>
     \<exists>k\<le>length words - fst st.
       fst ((loopBody h words ^^ k) st) = length words \<and>
       processLoop h words st = fst (snd ((loopBody h words ^^ k) st))"
proof (induction h words st rule: processLoop.induct)
  case (1 h words st)
  show ?case
  proof (cases "fst st < length words")
    case False
    with "1.prems" have "fst st = length words" by simp
    then have "fst ((loopBody h words ^^ 0) st) = length words \<and>
        processLoop h words st = fst (snd ((loopBody h words ^^ 0) st))"
      by (simp add: processLoop_done)
    then show ?thesis by blast
  next
    case True
    obtain i result c where st: "st = (i, result, c)"
      by (cases st)
    from True loopBody_advances [of i words h result c]
    have adv: "fst st < fst (loopBody h words st)" "fst (loopBody h words st) \<le> length words"
      by (simp_all add: st)
    from "1.IH" [OF True adv(2)] obtain k where
      k: "k \<le> length words - fst (loopBody h words st)"
        "fst ((loopBody h words ^^ k) (loopBody h words st)) = length words"
        "processLoop h words (loopBody h words st) =
           fst (snd ((loopBody h words ^^ k) (loopBody h words st)))"
      by blast
    have "Suc k \<le> length words - fst st"
      using k(1) adv by arith
    moreover have "fst ((loopBody h words ^^ Suc k) st) = length words"
      using k(2) by (simp add: funpow_swap1)
    moreover have "processLoop h words st = fst (snd ((loopBody h words ^^ Suc k) st))"
      using k(3) True by (simp add: funpow_swap1 processLoop_step)
    ultimately show ?thesis by blast
  qed
qed

text \<open>
  C9: the loop of the normalizer ends on every input. A matched phrase consumes 1, 2 or
  3 words and never more than remain, a literal word consumes one, so each pass moves
  the cursor forward and not beyond the end; after at most as many passes as there are
  words the cursor is at the end and the loop returns its result.
\<close>

theorem processLoop_terminates:
  "(matchPunctuation words i = Some (symbol, n) \<longrightarrow>
      1 \<le> n \<and> n \<le> 3 \<and> i + n \<le> length words)
   \<and> (i < length words \<longrightarrow>
        i < fst (loopBody h words (i, result, c)) \<and>
        fst (loopBody h words (i, result, c)) \<le> length words)
   \<and> (\<exists>k\<le>length words.
        fst ((loopBody h words ^^ k) (0, [], False)) = length words \<and>
        processLoop h words (0, [], False) = fst (snd ((loopBody h words ^^ k) (0, [], False))))"
proof (intro conjI impI)
  assume "matchPunctuation words i = Some (symbol, n)"
  from matchPunctuation_consumed [OF this]
  show "1 \<le> n" and "n \<le> 3" and "i + n \<le> length words"
    by simp_all
next
  assume less: "i < length words"
  from loopBody_advances [OF less]
  show "i < fst (loopBody h words (i, result, c))"
    and "fst (loopBody h words (i, result, c)) \<le> length words"
    by simp_all
next
  from funpow_loop_exit [of "(0, [], False)" words h]
  show "\<exists>k\<le>length words.
        fst ((loopBody h words ^^ k) (0, [], False)) = length words \<and>
        processLoop h words (0, [], False) = fst (snd ((loopBody h words ^^ k) (0, [], False)))"
    by simp
qed

theorem processLoop_terminates_witness:
  "matchPunctuation [js ''semi'', js ''colon'', js ''test''] 0 = Some (JString (js '';''), 2)
   \<and> (1::nat) \<le> 2 \<and> (2::nat) \<le> 3 \<and> 0 + 2 \<le> length [js ''semi'', js ''colon'', js ''test'']
   \<and> 0 < fst (loopBody exampleHost [js ''semi'', js ''colon'', js ''test''] (0, [], False))
   \<and> fst (loopBody exampleHost [js ''semi'', js ''colon'', js ''test''] (0, [], False)) \<le> 3"
proof -
  have m: "matchPunctuation [js ''semi'', js ''colon'', js ''test''] 0 = Some (JString (js '';''), 2)"
    by (simp add: matchPunctuation_unfold lookup_defs)
  from m
    processLoop_terminates [of "[js ''semi'', js ''colon'', js ''test'']" 0 "JString (js '';'')" 2
      exampleHost "[]" False]
  show ?thesis by simp
qed

section \<open>Properties of the session\<close>

lemma collectResults_eq:
  "collectResults slots i acc =
     (fst acc @ concat (map (\<lambda>s. transcript s @ [0x20]) (filter isFinal (drop i slots))),
      snd acc @ concat (map transcript (filter (\<lambda>s. \<not> isFinal s) (drop i slots))))"
proof (induction slots i acc rule: collectResults.induct)
  case (1 slots i acc)
  show ?case
  proof (cases "i < length slots")
    case True
    then have d: "drop i slots = slots ! i # drop (Suc i) slots"
      by (simp add: Cons_nth_drop_Suc)
    from True have "collectResults slots i acc =
        collectResults slots (i + 1)
          (if isFinal (slots ! i) then (fst acc @ transcript (slots ! i) @ [0x20], snd acc)
           else (fst acc, snd acc @ transcript (slots ! i)))"
      by (subst collectResults.simps) simp
    with "1.IH" [OF True] show ?thesis
      by (simp add: d)
  next
    case False
    then have "collectResults slots i acc = acc"
      by (subst collectResults.simps) simp
    with False show ?thesis by simp
  qed
qed

lemma finalTranscript_hidePreview [simp]: "finalTranscript (hidePreview s) = finalTranscript s"
  by (simp add: hidePreview_def split: option.splits)

lemma finalTranscript_showPreview [simp]: "finalTranscript (showPreview s) = finalTranscript s"
  by (simp add: showPreview_def split: option.splits)

lemma finalTranscript_updatePreview [simp]:
  "finalTranscript (updatePreview h s t) = finalTranscript s"
  by (simp add: updatePreview_def split: option.splits)

lemma listening_hidePreview [simp]: "listening (hidePreview s) = listening s"
  by (simp add: hidePreview_def split: option.splits)

lemma recognition_hidePreview [simp]: "recognition (hidePreview s) = recognition s"
  by (simp add: hidePreview_def split: option.splits)

lemma previewContainer_hidePreview [simp]: "previewContainer (hidePreview s) = None"
  by (simp add: hidePreview_def split: option.splits)

lemma hidePreview_idle: "previewContainer s = None \<Longrightarrow> hidePreview s = s"
  by (simp add: hidePreview_def)

lemma finalTranscript_handleFinalTranscript:
  "finalTranscript (fst (handleFinalTranscript h content s)) = []"
  by (simp add: handleFinalTranscript_def Let_def)

lemma finalTranscript_handleRecognitionResult:
  "finalTranscript (fst (handleRecognitionResult h content s event)) = []"
  by (simp add: handleRecognitionResult_def Let_def finalTranscript_handleFinalTranscript)

lemma handleAction_finalTranscript:
  "handleAction api s = Inr s' \<Longrightarrow> finalTranscript s' = finalTranscript s"
  by (auto simp: handleAction_def initializeRecognition_def Let_def
      split: if_splits sum.splits)

lemma reachable_finalTranscript: "reachable h s \<Longrightarrow> finalTranscript s = []"
proof (induction rule: reachable.induct)
  case reach_initial
  show ?case by (simp add: initialState_def)
next
  case (reach_action state api state')
  then show ?case by (simp add: handleAction_finalTranscript)
next
  case (reach_close state)
  then show ?case by (simp add: closeButtonClick_def)
next
  case (reach_result state currentContent event)
  show ?case by (rule finalTranscript_handleRecognitionResult)
next
  case (reach_error state)
  then show ?case by (simp add: onerror_def)
next
  case (reach_end state)
  then show ?case by (simp add: onend_def)
qed

lemma handleFinalTranscript_flags:
  "listening (fst (handleFinalTranscript h content s)) = listening s"
  "recognition (fst (handleFinalTranscript h content s)) = recognition s"
  "(previewContainer (fst (handleFinalTranscript h content s)) = None) = (previewContainer s = None)"
  by (simp_all add: handleFinalTranscript_def Let_def updatePreview_def split: option.splits)

lemma handleRecognitionResult_flags:
  "listening (fst (handleRecognitionResult h content s event)) = listening s"
  "recognition (fst (handleRecognitionResult h content s event)) = recognition s"
  "(previewContainer (fst (handleRecognitionResult h content s event)) = None) =
     (previewContainer s = None)"
  by (simp_all add: handleRecognitionResult_def Let_def handleFinalTranscript_flags
      updatePreview_def split: option.splits)

lemma reachable_listening:
  "reachable h s \<Longrightarrow> listening s \<longrightarrow> recognition s \<and> previewContainer s \<noteq> None"
proof (induction rule: reachable.induct)
  case reach_initial
  show ?case by (simp add: initialState_def)
next
  case (reach_action state api state')
  then show ?case
    by (auto simp: handleAction_def initializeRecognition_def Let_def showPreview_def
        split: if_splits sum.splits option.splits)
next
  case (reach_close state)
  then show ?case by (simp add: closeButtonClick_def)
next
  case (reach_result state currentContent event)
  then show ?case by (simp add: handleRecognitionResult_flags)
next
  case (reach_error state)
  then show ?case by (simp add: onerror_def)
next
  case (reach_end state)
  then show ?case by (simp add: onend_def)
qed

lemma start_from_initial: "handleAction workingApi initialState = Inr listeningState"
  by (simp add: handleAction_def initializeRecognition_def workingApi_def initialState_def
      listeningState_def showPreview_def Let_def)

lemma stop_from_listening: "handleAction workingApi listeningState = Inr stoppedState"
  by (simp add: handleAction_def listeningState_def stoppedState_def hidePreview_def)

lemma reachable_listeningState: "reachable h listeningState"
  using reach_action [OF reach_initial start_from_initial] .

lemma reachable_stoppedState: "reachable h stoppedState"
  using reach_action [OF reachable_listeningState stop_from_listening] .

text \<open>
  C6: on a result event the final slots from \<open>resultIndex\<close> on are appended to
  \<open>finalTranscript\<close>, each with one space after it, and the other slots to
  \<open>interimTranscript\<close>, which starts empty at every event; a non-empty
  \<open>interimTranscript\<close> is normalized and shown in the preview (which exists while the
  session listens) before the final text is handled.
\<close>

theorem handleRecognitionResult_collects:
  "collectResults (results event) (resultIndex event) (finalTranscript state, []) =
     (finalTranscript state @ specFinalText event, specInterimText event)
   \<and> handleRecognitionResult h content state event =
       handleFinalTranscript h content
         (if specInterimText event \<noteq> []
          then updatePreview h
                 (state\<lparr>finalTranscript := finalTranscript state @ specFinalText event\<rparr>)
                 (specInterimText event)
          else state\<lparr>finalTranscript := finalTranscript state @ specFinalText event\<rparr>)
   \<and> (previewContainer state \<noteq> None \<longrightarrow>
        previewContainer (updatePreview h state (specInterimText event)) =
          Some (processTextWithPunctuation h (specInterimText event)))
   \<and> (reachable h state \<and> listening state \<longrightarrow> previewContainer state \<noteq> None)
   \<and> (reachable h state \<and> listening state \<and>
        specFinalText event = [] \<and> specInterimText event \<noteq> [] \<longrightarrow>
        handleRecognitionResult h content state event =
          (state\<lparr>previewContainer :=
             Some (processTextWithPunctuation h (specInterimText event))\<rparr>, None))"
proof (intro conjI impI)
  show collect: "collectResults (results event) (resultIndex event) (finalTranscript state, []) =
     (finalTranscript state @ specFinalText event, specInterimText event)"
    by (simp add: collectResults_eq specFinalText_def specInterimText_def)
  show handler: "handleRecognitionResult h content state event =
       handleFinalTranscript h content
         (if specInterimText event \<noteq> []
          then updatePreview h
                 (state\<lparr>finalTranscript := finalTranscript state @ specFinalText event\<rparr>)
                 (specInterimText event)
          else state\<lparr>finalTranscript := finalTranscript state @ specFinalText event\<rparr>)"
    by (simp add: handleRecognitionResult_def Let_def collect)
  {
    assume "previewContainer state \<noteq> None"
    then show "previewContainer (updatePreview h state (specInterimText event)) =
          Some (processTextWithPunctuation h (specInterimText event))"
      by (auto simp: updatePreview_def)
  }
  {
    assume "reachable h state \<and> listening state"
    then show "previewContainer state \<noteq> None"
      using reachable_listening by blast
  }
  {
    assume a: "reachable h state \<and> listening state \<and>
        specFinalText event = [] \<and> specInterimText event \<noteq> []"
    then have empty: "finalTranscript state = []"
      using reachable_finalTranscript by blast
    from a obtain p where p: "previewContainer state = Some p"
      using reachable_listening by blast
    from a empty p show "handleRecognitionResult h content state event =
          (state\<lparr>previewContainer :=
             Some (processTextWithPunctuation h (specInterimText event))\<rparr>, None)"
      by (simp add: handler updatePreview_def handleFinalTranscript_def)
  }
qed

theorem handleRecognitionResult_collects_witness:
  "collectResults (results exampleEvent) (resultIndex exampleEvent)
       (finalTranscript listeningState, []) = (js ''hello '', js ''wor'')
   \<and> previewContainer (updatePreview exampleHost listeningState (js ''wor'')) = Some (js ''wor'')
   \<and> previewContainer listeningState \<noteq> None"
proof -
  have f: "specFinalText exampleEvent = js ''hello ''"
    by (simp add: specFinalText_def exampleEvent_def js_def)
  have i: "specInterimText exampleEvent = js ''wor''"
    by (simp add: specInterimText_def exampleEvent_def js_def)
  have n: "processTextWithPunctuation exampleHost (js ''wor'') = js ''wor''"
    by (simp add: processTextWithPunctuation_def matchPunctuation_unfold lookup_defs loop_defs)
  have r: "reachable exampleHost listeningState \<and> listening listeningState"
    by (simp add: reachable_listeningState) (simp add: listeningState_def)
  have p: "previewContainer listeningState \<noteq> None"
    by (simp add: listeningState_def)
  from handleRecognitionResult_collects [of exampleEvent listeningState exampleHost "[]"] r p
  show ?thesis
    by (simp add: f i n) (simp add: listeningState_def)
qed

text \<open>
  C7: a commit resets \<open>finalTranscript\<close> to the empty string, and in every state a
  session can reach the accumulator is empty, so it is empty after a stop (the toggle or
  the close button), after a recognition error and after a recognition end as well: no
  uncommitted fragment survives them.
\<close>

theorem finalTranscript_discarded:
  "(finalTranscript state \<noteq> [] \<longrightarrow>
      finalTranscript (fst (handleFinalTranscript h content state)) = [] \<and>
      snd (handleFinalTranscript h content state) =
        Some (prepareTextForInsertion h content
               (processTextWithPunctuation h (finalTranscript state))))
   \<and> (reachable h state \<longrightarrow>
        finalTranscript state = [] \<and>
        finalTranscript (fst (handleRecognitionResult h content state event)) = [] \<and>
        (\<forall>state'. handleAction api state = Inr state' \<longrightarrow> finalTranscript state' = []) \<and>
        finalTranscript (closeButtonClick state) = [] \<and>
        finalTranscript (onerror state) = [] \<and>
        finalTranscript (onend state) = [])"
proof (intro conjI impI allI)
  assume "finalTranscript state \<noteq> []"
  then show "snd (handleFinalTranscript h content state) =
        Some (prepareTextForInsertion h content
               (processTextWithPunctuation h (finalTranscript state)))"
    by (simp add: handleFinalTranscript_def Let_def)
next
  show "finalTranscript (fst (handleFinalTranscript h content state)) = []"
    by (rule finalTranscript_handleFinalTranscript)
next
  show "finalTranscript (fst (handleRecognitionResult h content state event)) = []"
    by (rule finalTranscript_handleRecognitionResult)
next
  assume "reachable h state"
  then show "finalTranscript state = []"
    by (rule reachable_finalTranscript)
next
  fix state'
  assume "reachable h state" and "handleAction api state = Inr state'"
  then show "finalTranscript state' = []"
    using handleAction_finalTranscript reachable_finalTranscript by metis
next
  assume "reachable h state"
  then show "finalTranscript (closeButtonClick state) = []"
    using reachable_finalTranscript [of h state] by (simp add: closeButtonClick_def)
next
  assume "reachable h state"
  then show "finalTranscript (onerror state) = []"
    using reachable_finalTranscript [of h state] by (simp add: onerror_def)
next
  assume "reachable h state"
  then show "finalTranscript (onend state) = []"
    using reachable_finalTranscript [of h state] by (simp add: onend_def)
qed

theorem finalTranscript_discarded_witness:
  "finalTranscript (fst (handleFinalTranscript exampleHost []
       (listeningState\<lparr>finalTranscript := js ''hi ''\<rparr>))) = []
   \<and> finalTranscript (onerror listeningState) = []
   \<and> finalTranscript (onend listeningState) = []
   \<and> finalTranscript (closeButtonClick listeningState) = []"
proof -
  have ne: "finalTranscript (listeningState\<lparr>finalTranscript := js ''hi ''\<rparr>) \<noteq> []"
    by (simp add: js_def)
  from ne
    finalTranscript_discarded [of "listeningState\<lparr>finalTranscript := js ''hi ''\<rparr>"
      exampleHost "[]"]
  have a: "finalTranscript (fst (handleFinalTranscript exampleHost []
       (listeningState\<lparr>finalTranscript := js ''hi ''\<rparr>))) = []"
    by blast
  from reachable_listeningState [of exampleHost]
    finalTranscript_discarded [of listeningState exampleHost "[]" exampleEvent workingApi]
  have "finalTranscript (onerror listeningState) = [] \<and>
      finalTranscript (onend listeningState) = [] \<and>
      finalTranscript (closeButtonClick listeningState) = []"
    by blast
  with a show ?thesis by blast
qed

text \<open>
  C8, as the claim states it: once the session is Idle no result event is processed
  until the next start. The result handler has no such check. After a start and a stop,
  a result event with the final slot \<open>hi\<close> is handled on the Idle session and
  \<open>hi\<close> is inserted into the (empty) document.
\<close>

theorem result_after_stop_counterexample:
  "handleAction workingApi initialState = Inr listeningState
   \<and> handleAction workingApi listeningState = Inr stoppedState
   \<and> listening stoppedState = False
   \<and> handleRecognitionResult exampleHost [] stoppedState
         \<lparr> resultIndex = 0, results = [\<lparr> transcript = js ''hi'', isFinal = True \<rparr>] \<rparr>
       = (stoppedState, Some (js ''hi''))"
proof (intro conjI)
  show "handleAction workingApi initialState = Inr listeningState"
    by (rule start_from_initial)
  show "handleAction workingApi listeningState = Inr stoppedState"
    by (rule stop_from_listening)
  show "listening stoppedState = False"
    by (simp add: stoppedState_def)
  have c: "collectResults [\<lparr> transcript = js ''hi'', isFinal = True \<rparr>] 0 ([], []) =
      (js ''hi '', [])"
    by (simp add: collectResults_eq js_def)
  have n: "processTextWithPunctuation exampleHost (js ''hi '') = js ''hi''"
    by (simp add: processTextWithPunctuation_def matchPunctuation_unfold lookup_defs loop_defs)
  have p: "prepareTextForInsertion exampleHost [] (js ''hi'') = js ''hi''"
    by (simp add: prepareTextForInsertion_def shouldCapitalizeText_def needsSpaceBefore_def)
  have ne: "js ''hi '' \<noteq> []"
    by (simp add: js_def)
  show "handleRecognitionResult exampleHost [] stoppedState
         \<lparr> resultIndex = 0, results = [\<lparr> transcript = js ''hi'', isFinal = True \<rparr>] \<rparr>
       = (stoppedState, Some (js ''hi''))"
    by (simp add: handleRecognitionResult_def handleFinalTranscript_def Let_def
        stoppedState_def updatePreview_def c n p ne)
qed

lemma updatePreview_listening_update:
  "updatePreview h (s\<lparr>listening := b\<rparr>) t = (updatePreview h s t)\<lparr>listening := b\<rparr>"
  by (simp add: updatePreview_def split: option.splits)

lemma handleFinalTranscript_listening_update:
  "handleFinalTranscript h content (s\<lparr>listening := b\<rparr>) =
     ((fst (handleFinalTranscript h content s))\<lparr>listening := b\<rparr>,
      snd (handleFinalTranscript h content s))"
  by (simp add: handleFinalTranscript_def Let_def updatePreview_def split: option.splits)

lemma handleRecognitionResult_listening_update:
  "handleRecognitionResult h content (s\<lparr>listening := b\<rparr>) event =
     ((fst (handleRecognitionResult h content s event))\<lparr>listening := b\<rparr>,
      snd (handleRecognitionResult h content s event))"
proof -
  have u: "(s\<lparr>listening := b\<rparr>)\<lparr>finalTranscript := f\<rparr> = (s\<lparr>finalTranscript := f\<rparr>)\<lparr>listening := b\<rparr>" for f
    by simp
  show ?thesis
    unfolding handleRecognitionResult_def Let_def
    by (simp add: u updatePreview_listening_update handleFinalTranscript_listening_update
        del: editorState.update_convs)
qed

lemma handleAction_idle_starts:
  "listening state = False \<and> recognition state \<and> startThrows api = False \<Longrightarrow>
     handleAction api state = Inr ((showPreview state)\<lparr>listening := True\<rparr>)"
  by (simp add: handleAction_def Let_def showPreview_def split: option.splits)

text \<open>
  C8, amended: from Listening (with its recognition object) the toggle and the
  preview's close button end in Idle with the preview hidden; a recognition error and a
  recognition end do so from every state. The three handlers are idempotent, and on an
  Idle session with no preview they change nothing. Result events are not part of
  this: the result handler neither reads nor writes \<open>listening\<close>. The toggle on an
  Idle session is no stop: it starts a session.
\<close>

theorem stop_and_failure_idle:
  "(listening state \<and> recognition state \<longrightarrow>
      (\<exists>state'. handleAction api state = Inr state' \<and>
         listening state' = False \<and> previewContainer state' = None) \<and>
      listening (closeButtonClick state) = False \<and>
      previewContainer (closeButtonClick state) = None)
   \<and> listening (onerror state) = False \<and> previewContainer (onerror state) = None
   \<and> listening (onend state) = False \<and> previewContainer (onend state) = None
   \<and> onerror (onerror state) = onerror state
   \<and> onend (onend state) = onend state
   \<and> closeButtonClick (closeButtonClick state) = closeButtonClick state
   \<and> (listening state = False \<and> previewContainer state = None \<longrightarrow>
        closeButtonClick state = state \<and> onerror state = state \<and> onend state = state)
   \<and> handleRecognitionResult h content (state\<lparr>listening := b\<rparr>) event =
       ((fst (handleRecognitionResult h content state event))\<lparr>listening := b\<rparr>,
        snd (handleRecognitionResult h content state event))
   \<and> (listening state = False \<and> recognition state \<and> startThrows api = False \<longrightarrow>
        handleAction api state = Inr ((showPreview state)\<lparr>listening := True\<rparr>))"
proof (intro conjI impI)
  show "handleRecognitionResult h content (state\<lparr>listening := b\<rparr>) event =
       ((fst (handleRecognitionResult h content state event))\<lparr>listening := b\<rparr>,
        snd (handleRecognitionResult h content state event))"
    by (rule handleRecognitionResult_listening_update)
next
  assume "listening state = False \<and> recognition state \<and> startThrows api = False"
  then show "handleAction api state = Inr ((showPreview state)\<lparr>listening := True\<rparr>)"
    by (rule handleAction_idle_starts)
next
  assume a: "listening state \<and> recognition state"
  then have "handleAction api state = Inr (hidePreview (state\<lparr>listening := False\<rparr>))"
    by (simp add: handleAction_def)
  then show "\<exists>state'. handleAction api state = Inr state' \<and>
         listening state' = False \<and> previewContainer state' = None"
    by simp
  from a show "listening (closeButtonClick state) = False"
    by (simp add: closeButtonClick_def)
  show "previewContainer (closeButtonClick state) = None"
    by (simp add: closeButtonClick_def)
next
  show "listening (onerror state) = False" and "previewContainer (onerror state) = None"
    by (simp_all add: onerror_def)
  show "listening (onend state) = False" and "previewContainer (onend state) = None"
    by (simp_all add: onend_def)
  show "onerror (onerror state) = onerror state"
    by (simp add: onerror_def hidePreview_def split: option.splits)
  show "onend (onend state) = onend state"
    by (simp add: onend_def hidePreview_def split: option.splits)
  show "closeButtonClick (closeButtonClick state) = closeButtonClick state"
    by (simp add: closeButtonClick_def hidePreview_def split: option.splits)
next
  assume idle: "listening state = False \<and> previewContainer state = None"
  then show "closeButtonClick state = state"
    by (simp add: closeButtonClick_def hidePreview_idle)
  from idle have "state\<lparr>listening := False\<rparr> = state"
    by (cases state) simp
  with idle show "onerror state = state" and "onend state = state"
    by (simp_all add: onerror_def onend_def hidePreview_idle)
qed

theorem stop_and_failure_idle_witness:
  "handleAction workingApi listeningState = Inr stoppedState
   \<and> listening (closeButtonClick listeningState) = False
   \<and> previewContainer (closeButtonClick listeningState) = None
   \<and> closeButtonClick stoppedState = stoppedState
   \<and> onerror stoppedState = stoppedState
   \<and> onend stoppedState = stoppedState"
proof -
  have l: "listening listeningState \<and> recognition listeningState"
    by (simp add: listeningState_def)
  have i: "listening stoppedState = False \<and> previewContainer stoppedState = None"
    by (simp add: stoppedState_def)
  from l stop_and_failure_idle [of listeningState workingApi]
  have a: "listening (closeButtonClick listeningState) = False \<and>
      previewContainer (closeButtonClick listeningState) = None"
    by blast
  from i stop_and_failure_idle [of stoppedState workingApi]
  have b: "closeButtonClick stoppedState = stoppedState \<and> onerror stoppedState = stoppedState \<and>
      onend stoppedState = stoppedState"
    by blast
  from a b stop_from_listening show ?thesis by blast
qed

text \<open>
  C10: when the document is empty the text committed is the normalized pending text
  itself, with no space in front and no change of case, whatever it starts with.
\<close>

theorem empty_document_commit:
  "prepareTextForInsertion h [] t = t
   \<and> (finalTranscript state \<noteq> [] \<longrightarrow>
        snd (handleFinalTranscript h [] state) =
          Some (processTextWithPunctuation h (finalTranscript state)))"
proof (intro conjI impI)
  show p: "prepareTextForInsertion h [] t = t" for t
    by (simp add: prepareTextForInsertion_def shouldCapitalizeText_def needsSpaceBefore_def)
  assume "finalTranscript state \<noteq> []"
  then show "snd (handleFinalTranscript h [] state) =
          Some (processTextWithPunctuation h (finalTranscript state))"
    by (simp add: handleFinalTranscript_def Let_def p)
qed

theorem empty_document_commit_witness:
  "prepareTextForInsertion exampleHost [] (js ''hello there'') = js ''hello there''
   \<and> snd (handleFinalTranscript exampleHost []
        (listeningState\<lparr>finalTranscript := js ''hello there ''\<rparr>)) = Some (js ''hello there'')"
proof -
  have ne: "finalTranscript (listeningState\<lparr>finalTranscript := js ''hello there ''\<rparr>) \<noteq> []"
    by (simp add: js_def)
  have n: "processTextWithPunctuation exampleHost (js ''hello there '') = js ''hello there''"
    by (simp add: processTextWithPunctuation_def matchPunctuation_unfold lookup_defs loop_defs)
  from ne n
    empty_document_commit [of exampleHost "js ''hello there''"
      "listeningState\<lparr>finalTranscript := js ''hello there ''\<rparr>"]
  show ?thesis by simp
qed

section \<open>Capitalization after a sentence end\<close>

lemma symbolRun_keeps_flag:
  "symbolRun h words i j appended \<Longrightarrow>
     processLoop h words (i, result, True) = processLoop h words (j, result @ appended, True)"
proof (induction arbitrary: result rule: symbolRun.induct)
  case (run_none i)
  show ?case by simp
next
  case (run_symbol i symbol n j appended)
  have "processLoop h words (i, result, True) =
      processLoop h words (i + n, result @ toStr h symbol @ spaceAfter symbol, True)"
    using run_symbol.hyps(1,2)
    by (simp add: processLoop_step loopBody_symbol spaceAfter_def)
  also have "\<dots> = processLoop h words (j, (result @ toStr h symbol @ spaceAfter symbol) @ appended, True)"
    by (rule run_symbol.IH)
  finally show ?case by simp
qed

text \<open>
  C2: when the loop resolves a symbol of \<open>sentenceEndingPunctuation\<close>, the next
  literal word it appends (after any further symbols) has its first code unit
  upper-cased and the rest unchanged, and the flag is cleared, so that the word after it
  is appended as it is; \<open>normalize("new paragraph hello")\<close> is a blank line followed by
  \<open>Hello\<close>.
\<close>

theorem capitalize_after_sentence_end:
  "(i < length words \<and> matchPunctuation words i = Some (symbol, n) \<and> isSentenceEnding symbol \<and>
    symbolRun h words (i + n) j appended \<and> j < length words \<and> matchPunctuation words j = None \<longrightarrow>
      processLoop h words (i, result, c) =
        processLoop h words
          (j + 1,
           (result @ toStr h symbol @ spaceAfter symbol @ appended) @
             getSpacingBefore (result @ toStr h symbol @ spaceAfter symbol @ appended) @
             capitalizeWord h (words ! j),
           False))
   \<and> capitalizeWord h (u # rest) = upperCaseUnit h u @ rest
   \<and> (i < length words \<and> matchPunctuation words i = None \<longrightarrow>
        processLoop h words (i, result, False) =
          processLoop h words (i + 1, result @ getSpacingBefore result @ words ! i, False))
   \<and> processTextWithPunctuation h (js ''new paragraph hello'') = [0x0A, 0x0A] @ js ''Hello''"
proof (intro conjI impI)
  assume a: "i < length words \<and> matchPunctuation words i = Some (symbol, n) \<and>
    isSentenceEnding symbol \<and> symbolRun h words (i + n) j appended \<and> j < length words \<and>
    matchPunctuation words j = None"
  let ?r = "result @ toStr h symbol @ spaceAfter symbol"
  from a have "processLoop h words (i, result, c) = processLoop h words (i + n, ?r, True)"
    by (simp add: processLoop_step loopBody_symbol spaceAfter_def)
  also from a have "\<dots> = processLoop h words (j, ?r @ appended, True)"
    using symbolRun_keeps_flag [of h words "i + n" j appended ?r] by blast
  also from a have "\<dots> =
      processLoop h words
        (j + 1, (?r @ appended) @ getSpacingBefore (?r @ appended) @ capitalizeWord h (words ! j), False)"
    by (simp add: processLoop_step loopBody_word)
  finally show "processLoop h words (i, result, c) =
        processLoop h words
          (j + 1,
           (result @ toStr h symbol @ spaceAfter symbol @ appended) @
             getSpacingBefore (result @ toStr h symbol @ spaceAfter symbol @ appended) @
             capitalizeWord h (words ! j),
           False)"
    by simp
next
  show "capitalizeWord h (u # rest) = upperCaseUnit h u @ rest"
    by (simp add: capitalizeWord_def)
next
  assume "i < length words \<and> matchPunctuation words i = None"
  then show "processLoop h words (i, result, False) =
          processLoop h words (i + 1, result @ getSpacingBefore result @ words ! i, False)"
    by (simp add: processLoop_step loopBody_word)
next
  show "processTextWithPunctuation h (js ''new paragraph hello'') = [0x0A, 0x0A] @ js ''Hello''"
    by (simp add: processTextWithPunctuation_def matchPunctuation_unfold lookup_defs loop_defs)
qed

theorem capitalize_after_sentence_end_witness:
  "processLoop exampleHost [js ''full'', js ''stop'', js ''comma'', js ''word'', js ''next'']
       (0, [], False) =
     processLoop exampleHost [js ''full'', js ''stop'', js ''comma'', js ''word'', js ''next'']
       (4, js ''. , Word'', False)
   \<and> processLoop exampleHost [js ''full'', js ''stop'', js ''comma'', js ''word'', js ''next'']
       (4, js ''. , Word'', False) =
     processLoop exampleHost [js ''full'', js ''stop'', js ''comma'', js ''word'', js ''next'']
       (5, js ''. , Word next'', False)"
proof -
  let ?ws = "[js ''full'', js ''stop'', js ''comma'', js ''word'', js ''next'']"
  have m0: "matchPunctuation ?ws 0 = Some (JString (js ''.''), 2)"
    by (simp add: matchPunctuation_unfold lookup_defs)
  have m2: "matchPunctuation ?ws 2 = Some (JString (js '',''), 1)"
    by (simp add: matchPunctuation_unfold lookup_defs)
  have m3: "matchPunctuation ?ws 3 = None"
    by (simp add: matchPunctuation_unfold lookup_defs)
  have m4: "matchPunctuation ?ws 4 = None"
    by (simp add: matchPunctuation_unfold lookup_defs)
  have se: "isSentenceEnding (JString (js ''.''))"
    by (simp add: isSentenceEnding_def sentenceEndingPunctuation_def)
  have e: "(2::nat) + 1 = 3"
    by simp
  have l: "2 < length ?ws"
    by simp
  have "symbolRun exampleHost ?ws 3 3 []"
    by (rule run_none)
  then have "symbolRun exampleHost ?ws (2 + 1) 3 []"
    by (simp only: e)
  from run_symbol [OF l m2 this]
  have "symbolRun exampleHost ?ws 2 3 (js '', '')"
    by (simp add: toStr_def spaceAfter_def js_def)
  then have run: "symbolRun exampleHost ?ws (0 + 2) 3 (js '', '')"
    by (simp only: add_0)
  from m0 se run m3
    capitalize_after_sentence_end [of 0 ?ws "JString (js ''.'')" 2 exampleHost 3 "js '', ''"
      "[]" False]
  have a: "processLoop exampleHost ?ws (0, [], False) =
      processLoop exampleHost ?ws (4, js ''. , Word'', False)"
    by (simp add: toStr_def spaceAfter_def getSpacingBefore_def endsWith_def capitalizeWord_def
        upperCaseUnit_def js_def)
  from m4
    capitalize_after_sentence_end [of 4 ?ws "JString (js ''.'')" 2 exampleHost 3 "js '', ''"
      "js ''. , Word''" False]
  have b: "processLoop exampleHost ?ws (4, js ''. , Word'', False) =
      processLoop exampleHost ?ws (5, js ''. , Word next'', False)"
    by (simp add: getSpacingBefore_def endsWith_def js_def)
  from a b show ?thesis by blast
qed

section \<open>Spacing of the normalized text\<close>

lemma hasPair_Cons: "hasPair a b (x # xs) = ((xs \<noteq> [] \<and> x = a \<and> hd xs = b) \<or> hasPair a b xs)"
  by (cases xs) simp_all

lemma hasPair_append:
  "hasPair a b (xs @ ys) =
     (hasPair a b xs \<or> hasPair a b ys \<or> (xs \<noteq> [] \<and> ys \<noteq> [] \<and> last xs = a \<and> hd ys = b))"
proof (induction xs)
  case Nil
  show ?case by simp
next
  case (Cons x xs)
  show ?case
  proof (cases xs)
    case Nil
    then show ?thesis by (cases ys) auto
  next
    case (Cons x' xs')
    with Cons.IH show ?thesis by auto
  qed
qed

lemma hasPair_second_absent: "b \<notin> set xs \<Longrightarrow> \<not> hasPair a b xs"
  by (induction a b xs rule: hasPair.induct) auto

lemma hasPair_append_free:
  "b \<notin> set ys \<Longrightarrow> hasPair a b (xs @ ys) = hasPair a b xs"
  by (cases ys) (auto simp: hasPair_append hasPair_second_absent)

lemma hasPair_snoc:
  "hasPair a b (xs @ [b]) = (hasPair a b xs \<or> (xs \<noteq> [] \<and> last xs = a))"
  by (simp add: hasPair_append)

lemma splitWhiteSpace_not_Nil: "splitWhiteSpace s \<noteq> []"
  by (induction s rule: splitWhiteSpace.induct) (auto split: list.splits)

lemma splitWhiteSpace_no_whiteSpace:
  "w \<in> set (splitWhiteSpace s) \<Longrightarrow> c \<in> set w \<Longrightarrow> \<not> isWhiteSpace c"
proof (induction s arbitrary: w rule: splitWhiteSpace.induct)
  case 1
  then show ?case by simp
next
  case (2 d ds)
  show ?case
  proof (cases "isWhiteSpace d")
    case True
    with "2.prems" "2.IH"(1) show ?thesis by auto
  next
    case False
    obtain v vs where sp: "splitWhiteSpace ds = v # vs"
      using splitWhiteSpace_not_Nil [of ds] by (cases "splitWhiteSpace ds") auto
    with False "2.prems" have "w = d # v \<or> w \<in> set vs"
      by simp
    then show ?thesis
    proof
      assume "w = d # v"
      with "2.prems"(2) have "c = d \<or> c \<in> set v" by simp
      then show ?thesis
        using False "2.IH"(2) [OF False, of v] sp by auto
    next
      assume "w \<in> set vs"
      then show ?thesis
        using "2.IH"(2) [OF False, of w] sp "2.prems"(2) by simp
    qed
  qed
qed

lemma dropWhile_last:
  "xs \<noteq> [] \<Longrightarrow> \<not> P (last xs) \<Longrightarrow> dropWhile P xs \<noteq> [] \<and> last (dropWhile P xs) = last xs"
  by (induction xs) (auto split: if_splits)

lemma hd_splitWhiteSpace:
  "s \<noteq> [] \<Longrightarrow> \<not> isWhiteSpace (hd s) \<Longrightarrow> hd (splitWhiteSpace s) \<noteq> []"
  by (cases s) (auto split: list.splits)

lemma tl_splitWhiteSpace:
  "s \<noteq> [] \<Longrightarrow> \<not> isWhiteSpace (last s) \<Longrightarrow> w \<in> set (tl (splitWhiteSpace s)) \<Longrightarrow> w \<noteq> []"
proof (induction s arbitrary: w rule: splitWhiteSpace.induct)
  case 1
  then show ?case by simp
next
  case (2 d ds)
  show ?case
  proof (cases "isWhiteSpace d")
    case True
    let ?r = "dropWhile isWhiteSpace ds"
    from True "2.prems"(2) have ds: "ds \<noteq> []" by auto
    with "2.prems"(2) have lastds: "\<not> isWhiteSpace (last ds)" by simp
    from dropWhile_last [of ds isWhiteSpace] ds lastds
    have r: "?r \<noteq> []" and lastr: "last ?r = last ds"
      by simp_all
    have hdr: "\<not> isWhiteSpace (hd ?r)"
      using r by (simp add: hd_dropWhile)
    from True "2.prems"(3) have win: "w \<in> set (splitWhiteSpace ?r)" by simp
    have nn: "splitWhiteSpace ?r \<noteq> []" by (rule splitWhiteSpace_not_Nil)
    from win nn have "w = hd (splitWhiteSpace ?r) \<or> w \<in> set (tl (splitWhiteSpace ?r))"
      by (cases "splitWhiteSpace ?r") auto
    then show ?thesis
    proof
      assume "w = hd (splitWhiteSpace ?r)"
      with hd_splitWhiteSpace [OF r hdr] show ?thesis by simp
    next
      assume "w \<in> set (tl (splitWhiteSpace ?r))"
      with "2.IH"(1) [OF True r] lastr lastds show ?thesis by simp
    qed
  next
    case False
    obtain v vs where sp: "splitWhiteSpace ds = v # vs"
      using splitWhiteSpace_not_Nil [of ds] by (cases "splitWhiteSpace ds") auto
    with False "2.prems"(3) have wvs: "w \<in> set vs" by simp
    show ?thesis
    proof (cases ds)
      case Nil
      with sp wvs show ?thesis by simp
    next
      case (Cons e es)
      with "2.prems"(2) have "\<not> isWhiteSpace (last ds)" by simp
      with "2.IH"(2) [OF False, of w] Cons sp wvs show ?thesis by simp
    qed
  qed
qed

lemma trim_ends:
  assumes "trim s \<noteq> []"
  shows "\<not> isWhiteSpace (hd (trim s))" and "\<not> isWhiteSpace (last (trim s))"
proof -
  let ?ys = "dropWhile isWhiteSpace s"
  let ?zs = "dropWhile isWhiteSpace (rev ?ys)"
  have t: "trim s = rev ?zs"
    by (simp add: trim_def)
  with assms have zs: "?zs \<noteq> []" by simp
  then have "\<not> isWhiteSpace (hd ?zs)"
    by (simp add: hd_dropWhile)
  with zs show "\<not> isWhiteSpace (last (trim s))"
    by (simp add: t last_rev)
  have ys: "?ys \<noteq> []"
  proof
    assume e: "?ys = []"
    have "?zs = []" unfolding e by simp
    with zs show False by blast
  qed
  then have hdys: "\<not> isWhiteSpace (hd ?ys)"
    by (simp add: hd_dropWhile)
  have "rev ?ys = takeWhile isWhiteSpace (rev ?ys) @ ?zs"
    by simp
  then have "?ys = rev ?zs @ rev (takeWhile isWhiteSpace (rev ?ys))"
    by (metis rev_append rev_rev_ident)
  with zs have "hd ?ys = hd (rev ?zs)"
    by (metis hd_append2 rev_is_Nil_conv)
  with hdys show "\<not> isWhiteSpace (hd (trim s))"
    by (simp add: t)
qed

lemma words_of_trim:
  assumes "trim s \<noteq> []" and "w \<in> set (splitWhiteSpace (trim s))"
  shows "w \<noteq> []" and "0x20 \<notin> set w"
proof -
  have nn: "splitWhiteSpace (trim s) \<noteq> []"
    by (rule splitWhiteSpace_not_Nil)
  with assms(2) have "w = hd (splitWhiteSpace (trim s)) \<or> w \<in> set (tl (splitWhiteSpace (trim s)))"
    by (cases "splitWhiteSpace (trim s)") auto
  then show "w \<noteq> []"
    using hd_splitWhiteSpace [OF assms(1) trim_ends(1) [OF assms(1)]]
      tl_splitWhiteSpace [OF assms(1) trim_ends(2) [OF assms(1)]]
    by auto
  have "isWhiteSpace 0x20"
    by (simp add: isWhiteSpace_def)
  with splitWhiteSpace_no_whiteSpace [OF assms(2)] show "0x20 \<notin> set w"
    by auto
qed

lemma properWords_trim: "trim s \<noteq> [] \<Longrightarrow> properWords (splitWhiteSpace (trim s))"
  using words_of_trim by (simp add: properWords_def)

lemma tableSymbol_shape:
  assumes "tableSymbol symbol"
  shows "\<exists>s. symbol = JString s \<and> s \<noteq> [] \<and> 0x20 \<notin> set s \<and>
           (s = [0x0A] \<or> s = [0x0A, 0x0A] \<or> last s \<noteq> 0x0A)"
  using assms by (auto simp: tableSymbol_def punctuationMap_def js_def)

lemma upperCaseUnit_shape:
  "upperKeepsWords h \<Longrightarrow> c \<noteq> 0x20 \<Longrightarrow>
     upperCaseUnit h c \<noteq> [] \<and> 0x20 \<notin> set (upperCaseUnit h c)"
  by (auto simp: upperCaseUnit_def upperKeepsWords_def)

lemma capitalizeWord_shape:
  "upperKeepsWords h \<Longrightarrow> w \<noteq> [] \<Longrightarrow> 0x20 \<notin> set w \<Longrightarrow>
     capitalizeWord h w \<noteq> [] \<and> 0x20 \<notin> set (capitalizeWord h w)"
  using upperCaseUnit_shape by (cases w) (auto simp: capitalizeWord_def)

lemma hasPair_space_appended:
  assumes "0x20 \<notin> set w"
  shows "hasPair a 0x20 ((xs @ [0x20]) @ w) = (hasPair a 0x20 xs \<or> (xs \<noteq> [] \<and> last xs = a))"
proof -
  have "hasPair a 0x20 ((xs @ [0x20]) @ w) = hasPair a 0x20 (xs @ [0x20])"
    using assms by (rule hasPair_append_free)
  also have "\<dots> = (hasPair a 0x20 xs \<or> (xs \<noteq> [] \<and> last xs = a))"
    by (rule hasPair_snoc)
  finally show ?thesis .
qed

lemma wellSpaced_word:
  assumes "wellSpaced result" and "w \<noteq> []" and "0x20 \<notin> set w"
  shows "wellSpaced (result @ getSpacingBefore result @ w)"
proof (cases "getSpacingBefore result = []")
  case True
  with assms show ?thesis
    by (simp add: wellSpaced_def hasPair_append_free)
next
  case False
  then have sp: "getSpacingBefore result = [0x20]"
    and r: "result \<noteq> []" "last result \<noteq> 0x20" "last result \<noteq> 0x0A"
    by (auto simp: getSpacingBefore_def endsWith_single split: if_splits)
  have e: "result @ getSpacingBefore result @ w = (result @ [0x20]) @ w"
    by (simp add: sp)
  from assms(1) r show ?thesis
    unfolding e wellSpaced_def hasPair_space_appended [OF assms(3)]
    by simp
qed

lemma wellSpaced_symbol:
  assumes "wellSpaced result" and "tableSymbol symbol"
  shows "wellSpaced (result @ toStr h symbol @
           (if symbol \<noteq> JString [0x0A] \<and> symbol \<noteq> JString [0x0A, 0x0A] then [0x20] else []))"
proof -
  from tableSymbol_shape [OF assms(2)] obtain s where
    s: "symbol = JString s" "s \<noteq> []" "0x20 \<notin> set s"
      "s = [0x0A] \<or> s = [0x0A, 0x0A] \<or> last s \<noteq> 0x0A"
    by blast
  have keep: "hasPair a 0x20 (result @ s) = hasPair a 0x20 result" for a
    using s(3) by (rule hasPair_append_free)
  show ?thesis
  proof (cases "s = [0x0A] \<or> s = [0x0A, 0x0A]")
    case True
    then have "result @ toStr h symbol @
        (if symbol \<noteq> JString [0x0A] \<and> symbol \<noteq> JString [0x0A, 0x0A] then [0x20] else []) =
        result @ s"
      by (auto simp: s(1) toStr_def)
    with assms(1) show ?thesis
      by (simp add: wellSpaced_def keep)
  next
    case False
    with s have l: "last s \<noteq> 0x0A" by simp
    from s(2,3) have l2: "last s \<noteq> 0x20"
      using last_in_set by metis
    from False have "result @ toStr h symbol @
        (if symbol \<noteq> JString [0x0A] \<and> symbol \<noteq> JString [0x0A, 0x0A] then [0x20] else []) =
        (result @ s) @ [0x20]"
      by (simp add: s(1) toStr_def)
    moreover have "wellSpaced ((result @ s) @ [0x20])"
      using assms(1) s(2) l l2
      unfolding wellSpaced_def hasPair_snoc keep
      by simp
    ultimately show ?thesis
      by simp
  qed
qed

lemma loopBody_wellSpaced:
  assumes "i < length words" and "upperKeepsWords h" and "properWords words"
    and "tableOnly words" and "wellSpaced result"
  shows "wellSpaced (fst (snd (loopBody h words (i, result, c))))"
proof (cases "matchPunctuation words i")
  case None
  from assms(1,3) have w: "words ! i \<noteq> []" "0x20 \<notin> set (words ! i)"
    by (simp_all add: properWords_def)
  let ?w = "if c then capitalizeWord h (words ! i) else words ! i"
  from w capitalizeWord_shape [OF assms(2) w] have "?w \<noteq> []" and "0x20 \<notin> set ?w"
    by simp_all
  from wellSpaced_word [OF assms(5) this] show ?thesis
    by (simp add: loopBody_word [OF None])
next
  case (Some m)
  obtain symbol n where m: "m = (symbol, n)"
    by (cases m)
  from assms(1,4) Some m have "tableSymbol symbol"
    by (auto simp: tableOnly_def)
  from wellSpaced_symbol [OF assms(5) this] show ?thesis
    using Some m by (simp add: loopBody_def)
qed

lemma processLoop_wellSpaced:
  "upperKeepsWords h \<Longrightarrow> properWords words \<Longrightarrow> tableOnly words \<Longrightarrow>
     wellSpaced (fst (snd st)) \<Longrightarrow> wellSpaced (processLoop h words st)"
proof (induction h words st rule: processLoop.induct)
  case (1 h words st)
  obtain i result c where st: "st = (i, result, c)"
    by (cases st)
  show ?case
  proof (cases "fst st < length words")
    case True
    with "1.prems" have "wellSpaced (fst (snd (loopBody h words st)))"
      by (simp add: st loopBody_wellSpaced)
    from "1.IH" [OF True "1.prems"(1-3) this] True show ?thesis
      by (simp add: processLoop_step)
  next
    case False
    with "1.prems"(4) show ?thesis
      by (simp add: processLoop_done)
  qed
qed

lemma loopBody_increases: "i < fst (loopBody h words (i, result, c))"
  by (auto simp: loopBody_def split: option.splits dest: matchPunctuation_consumed)

lemma space_at_end_origin:
  assumes "upperKeepsWords h" and "properWords words"
    and "(loopBody h words ^^ k) (0, [], False) = (i, result, c)"
    and "i < length words" and "endsWith result [0x20]"
  shows "\<exists>k' i' result' c' symbol' n'.
           k = Suc k' \<and> (loopBody h words ^^ k') (0, [], False) = (i', result', c') \<and>
           i' < length words \<and> matchPunctuation words i' = Some (symbol', n') \<and>
           symbol' \<noteq> JString [0x0A] \<and> symbol' \<noteq> JString [0x0A, 0x0A] \<and>
           result = result' @ toStr h symbol' @ [0x20]"
proof (cases k)
  case 0
  with assms(3,5) show ?thesis
    by (simp add: endsWith_single)
next
  case (Suc k')
  obtain i' result' c' where prev: "(loopBody h words ^^ k') (0, [], False) = (i', result', c')"
    by (cases "(loopBody h words ^^ k') (0, [], False)")
  with assms(3) Suc have step: "loopBody h words (i', result', c') = (i, result, c)"
    by simp
  from loopBody_increases [of i' h words result' c'] step assms(4) have less: "i' < length words"
    by simp
  from assms(5) have sp: "result \<noteq> []" "last result = 0x20"
    by (simp_all add: endsWith_single)
  show ?thesis
  proof (cases "matchPunctuation words i'")
    case None
    from less assms(2) have w: "words ! i' \<noteq> []" "0x20 \<notin> set (words ! i')"
      by (simp_all add: properWords_def)
    let ?w = "if c' then capitalizeWord h (words ! i') else words ! i'"
    from w capitalizeWord_shape [OF assms(1) w] have ne: "?w \<noteq> []" and no: "0x20 \<notin> set ?w"
      by simp_all
    from step have "result = result' @ getSpacingBefore result' @ ?w"
      by (simp add: loopBody_word [OF None])
    with ne have "last result = last ?w"
      by simp
    with ne no sp(2) show ?thesis
      using last_in_set by metis
  next
    case (Some m)
    obtain symbol' n' where m: "m = (symbol', n')"
      by (cases m)
    from step Some m have r: "result = result' @ toStr h symbol' @
        (if symbol' = JString [0x0A] \<or> symbol' = JString [0x0A, 0x0A] then [] else [0x20])"
      by (simp add: loopBody_symbol)
    have notnl: "symbol' \<noteq> JString [0x0A] \<and> symbol' \<noteq> JString [0x0A, 0x0A]"
    proof (rule ccontr)
      assume "\<not> ?thesis"
      then have "symbol' = JString [0x0A] \<or> symbol' = JString [0x0A, 0x0A]"
        by blast
      with r have "last result = 0x0A"
        by (auto simp: toStr_def)
      with sp(2) show False by simp
    qed
    with r have "result = result' @ toStr h symbol' @ [0x20]"
      by simp
    with Suc prev less Some m notnl show ?thesis
      by blast
  qed
qed

text \<open>
  C5, as the claim states it: no space of the output stands immediately before a
  punctuation symbol. \<open>normalize("full stop full stop")\<close> is \<open>". . "\<close>, where the
  space after the first symbol stands before the second.
\<close>

theorem space_before_symbol_counterexample:
  "processTextWithPunctuation exampleHost (js ''full stop full stop'') = js ''. . ''
   \<and> spaceBeforeSymbol (processTextWithPunctuation exampleHost (js ''full stop full stop''))"
proof -
  have e: "processTextWithPunctuation exampleHost (js ''full stop full stop'') = js ''. . ''"
    by (simp add: processTextWithPunctuation_def matchPunctuation_unfold lookup_defs loop_defs)
  have "spaceBeforeSymbol (js ''. . '')"
    by (simp add: js_def punctuationMap_def)
  with e show ?thesis by simp
qed

text \<open>
  C5, amended: when every phrase resolved in the input is a phrase of the table, the
  output has no two spaces in a row and no space right after a newline. The loop puts
  no space before a symbol: when the buffer ends in a space at the moment a symbol is
  appended, the pass before appended a symbol too, one that is not the newline or the
  blank line, and the space is the one that follows that symbol.
\<close>

theorem normalized_spacing:
  "(upperKeepsWords h \<and> tableOnly (splitWhiteSpace (trim text)) \<longrightarrow>
      \<not> hasPair 0x20 0x20 (processTextWithPunctuation h text) \<and>
      \<not> hasPair 0x0A 0x20 (processTextWithPunctuation h text))
   \<and> (upperKeepsWords h \<and> trim text \<noteq> [] \<and>
       (loopBody h (splitWhiteSpace (trim text)) ^^ k) (0, [], False) = (i, result, c) \<and>
       i < length (splitWhiteSpace (trim text)) \<and>
       matchPunctuation (splitWhiteSpace (trim text)) i = Some (symbol, n) \<and>
       endsWith result [0x20] \<longrightarrow>
         (\<exists>k' i' result' c' symbol' n'.
            k = Suc k' \<and>
            (loopBody h (splitWhiteSpace (trim text)) ^^ k') (0, [], False) = (i', result', c') \<and>
            i' < length (splitWhiteSpace (trim text)) \<and>
            matchPunctuation (splitWhiteSpace (trim text)) i' = Some (symbol', n') \<and>
            symbol' \<noteq> JString [0x0A] \<and> symbol' \<noteq> JString [0x0A, 0x0A] \<and>
            result = result' @ toStr h symbol' @ [0x20]))"
proof (intro conjI impI)
  assume a: "upperKeepsWords h \<and> tableOnly (splitWhiteSpace (trim text))"
  have "wellSpaced (processTextWithPunctuation h text)"
  proof (cases "text = [] \<or> trim text = []")
    case True
    then show ?thesis
      by (simp add: processTextWithPunctuation_def wellSpaced_def)
  next
    case False
    then have "properWords (splitWhiteSpace (trim text))"
      by (simp add: properWords_trim)
    with a have "wellSpaced (processLoop h (splitWhiteSpace (trim text)) (0, [], False))"
      by (intro processLoop_wellSpaced) (simp_all add: wellSpaced_def)
    with False show ?thesis
      by (simp add: processTextWithPunctuation_def)
  qed
  then show "\<not> hasPair 0x20 0x20 (processTextWithPunctuation h text)"
    and "\<not> hasPair 0x0A 0x20 (processTextWithPunctuation h text)"
    by (simp_all add: wellSpaced_def)
next
  assume a: "upperKeepsWords h \<and> trim text \<noteq> [] \<and>
       (loopBody h (splitWhiteSpace (trim text)) ^^ k) (0, [], False) = (i, result, c) \<and>
       i < length (splitWhiteSpace (trim text)) \<and>
       matchPunctuation (splitWhiteSpace (trim text)) i = Some (symbol, n) \<and>
       endsWith result [0x20]"
  then have pw: "properWords (splitWhiteSpace (trim text))"
    by (simp add: properWords_trim)
  from a pw space_at_end_origin [of h "splitWhiteSpace (trim text)" k i result c]
  show "\<exists>k' i' result' c' symbol' n'.
            k = Suc k' \<and>
            (loopBody h (splitWhiteSpace (trim text)) ^^ k') (0, [], False) = (i', result', c') \<and>
            i' < length (splitWhiteSpace (trim text)) \<and>
            matchPunctuation (splitWhiteSpace (trim text)) i' = Some (symbol', n') \<and>
            symbol' \<noteq> JString [0x0A] \<and> symbol' \<noteq> JString [0x0A, 0x0A] \<and>
            result = result' @ toStr h symbol' @ [0x20]"
    by blast
qed

theorem normalized_spacing_witness:
  "\<not> hasPair 0x20 0x20 (processTextWithPunctuation exampleHost (js ''hello full stop comma''))
   \<and> \<not> hasPair 0x0A 0x20 (processTextWithPunctuation exampleHost (js ''hello full stop comma''))
   \<and> (\<exists>k' i' result' c' symbol' n'.
        (2::nat) = Suc k' \<and>
        (loopBody exampleHost (splitWhiteSpace (trim (js ''hello full stop comma''))) ^^ k')
          (0, [], False) = (i', result', c') \<and>
        i' < length (splitWhiteSpace (trim (js ''hello full stop comma''))) \<and>
        matchPunctuation (splitWhiteSpace (trim (js ''hello full stop comma''))) i' =
          Some (symbol', n') \<and>
        symbol' \<noteq> JString [0x0A] \<and> symbol' \<noteq> JString [0x0A, 0x0A] \<and>
        js ''hello. '' = result' @ toStr exampleHost symbol' @ [0x20])"
proof -
  let ?ws = "[js ''hello'', js ''full'', js ''stop'', js ''comma'']"
  have ws: "splitWhiteSpace (trim (js ''hello full stop comma'')) = ?ws"
    by (simp add: js_def trim_def isWhiteSpace_def)
  have u: "upperKeepsWords exampleHost"
    by (simp add: upperKeepsWords_def exampleHost_def)
  have m0: "matchPunctuation ?ws 0 = None"
    by (simp add: matchPunctuation_unfold lookup_defs)
  have m1: "matchPunctuation ?ws (Suc 0) = Some (JString (js ''.''), 2)"
    by (simp add: matchPunctuation_unfold lookup_defs)
  have m2: "matchPunctuation ?ws (Suc (Suc 0)) = None"
    by (simp add: matchPunctuation_unfold lookup_defs)
  have m3: "matchPunctuation ?ws (Suc (Suc (Suc 0))) = Some (JString (js '',''), 1)"
    by (simp add: matchPunctuation_unfold lookup_defs)
  have t: "tableOnly ?ws"
    by (simp add: tableOnly_def All_less_Suc m0 m1 m2 m3)
       (simp add: tableSymbol_def punctuationMap_def js_def)
  have ne: "trim (js ''hello full stop comma'') \<noteq> []"
    by (simp add: js_def trim_def isWhiteSpace_def)
  have s1: "loopBody exampleHost ?ws (0, [], False) = (Suc 0, js ''hello'', False)"
    by (simp add: loopBody_word [OF m0] getSpacingBefore_def)
  have s2: "loopBody exampleHost ?ws (Suc 0, js ''hello'', False) = (3, js ''hello. '', True)"
    using loopBody_symbol [OF m1, of exampleHost "js ''hello''" False]
    by (simp add: toStr_def isSentenceEnding_def sentenceEndingPunctuation_def js_def)
  have k2: "(loopBody exampleHost ?ws ^^ 2) (0, [], False) = (3, js ''hello. '', True)"
    by (simp add: numeral_2_eq_2 s1 s2)
  have m3': "matchPunctuation ?ws 3 = Some (JString (js '',''), 1)"
    using m3 by (simp add: numeral_3_eq_3)
  have e: "endsWith (js ''hello. '') [0x20]"
    by (simp add: endsWith_def js_def)
  from u t ne k2 m3' e
    normalized_spacing [of exampleHost "js ''hello full stop comma''" 2 3 "js ''hello. ''" True
      "JString (js '','')" 1]
  show ?thesis
    unfolding ws by simp
qed

section \<open>The first letter of a committed text\<close>

text \<open>
  On a text that starts with an ASCII unit other than \<open>a\<close> to \<open>z\<close>, \<open>capitalizeWord\<close>
  changes nothing: the test \<open>/^[a-z]/\<close> of \<open>shouldCapitalizeText\<close> makes a difference
  only for a text that starts with a unit outside ASCII.
\<close>

lemma capitalizeWord_ascii_unchanged:
  "t \<noteq> [] \<Longrightarrow> hd t < 0x80 \<Longrightarrow> \<not> startsWithLowerCase t \<Longrightarrow> capitalizeWord h t = t"
  by (cases t) (auto simp: capitalizeWord_def upperCaseUnit_def startsWithLowerCase_def)

text \<open>
  C1: take the document content \<open>"Hello."\<close> and as pending text the French word
  \<open>ecole\<close> written with its accent, that is with U+00E9 (\<open>e\<close> with an acute accent,
  a lower-case letter) as first unit. The document is not empty, the text starts with a
  lower-case letter and the trimmed content ends with a full stop, yet the text is
  committed as it is, with a space in front and no capital: \<open>/^[a-z]/\<close> lets
  through the ASCII letters only. Inside the normalizer the same word after
  \<open>full stop\<close> is capitalized, by \<open>capitalizeWord\<close>, with the engine's upper-case
  form of U+00E9.
\<close>

theorem prepareTextForInsertion_accented:
  "shouldCapitalizeText (js ''Hello.'') (0xE9 # js ''cole'') = False
   \<and> prepareTextForInsertion h (js ''Hello.'') (0xE9 # js ''cole'') = 0x20 # 0xE9 # js ''cole''
   \<and> capitalizeWord h (0xE9 # js ''cole'') = upperNonAscii h 0xE9 @ js ''cole''
   \<and> processTextWithPunctuation h (js ''full stop '' @ 0xE9 # js ''cole'') =
       js ''. '' @ upperNonAscii h 0xE9 @ js ''cole''"
proof (intro conjI)
  show c: "shouldCapitalizeText (js ''Hello.'') (0xE9 # js ''cole'') = False"
    by (simp add: shouldCapitalizeText_def startsWithLowerCase_def)
  have n: "needsSpaceBefore (js ''Hello.'') (0xE9 # js ''cole'')"
    by (simp add: needsSpaceBefore_def endsWith_def startsWithPunctuation_def js_def)
  from c n show "prepareTextForInsertion h (js ''Hello.'') (0xE9 # js ''cole'') =
      0x20 # 0xE9 # js ''cole''"
    by (simp add: prepareTextForInsertion_def Let_def)
  show "capitalizeWord h (0xE9 # js ''cole'') = upperNonAscii h 0xE9 @ js ''cole''"
    by (simp add: capitalizeWord_def upperCaseUnit_def)
  show "processTextWithPunctuation h (js ''full stop '' @ 0xE9 # js ''cole'') =
       js ''. '' @ upperNonAscii h 0xE9 @ js ''cole''"
    by (simp add: processTextWithPunctuation_def matchPunctuation_unfold lookup_defs loop_defs)
qed

end
